theory Spec2Isabelle
  imports Main
begin

section \<open>Values shared by the components\<close>

text \<open>
  A state of a state machine is a JavaScript string or \<open>undefined\<close> (the state of a machine
  of \<open>dist/tests.js\<close> before its first move, and the \<open>from\<close> of a first move):
  \<open>None\<close> is \<open>undefined\<close>. Strict equality on these values is equality in HOL.
\<close>

type_synonym state = "string option"

text \<open>
  The counters and timestamps of \<open>lib/stats.mjs\<close> as \<open>index.mjs\<close> uses them:
  \<open>pass\<close>, \<open>fail\<close>, \<open>skip\<close>, \<open>ignore\<close>, \<open>total\<close>, and the times \<open>start\<close> and \<open>end\<close>
  (\<open>None\<close> while unset).
\<close>

record stats =
  pass :: nat
  fail :: nat
  skip :: nat
  ignore :: nat
  total :: nat
  start_time :: "nat option"
  end_time :: "nat option"

text \<open>
  An error object: its \<open>name\<close> (\<open>Error\<close> unless the code sets it) and its message.
\<close>

datatype error = Error (err_name: string) (message: string)

text \<open>The positional arguments events carry.\<close>

datatype arg =
    AState state
  | ANum nat
  | AStats stats
  | ANode string
  | AStr string
  | AErr error

text \<open>A call \<open>this.emit(eventName, ...args)\<close>; a state can be the event name.\<close>

type_synonym event = "state \<times> arg list"

section \<open>StateMachine (fsm-base, as bundled in dist/tests.js)\<close>

text \<open>
  A declared move \<open>{ from, to }\<close>: each side one state or an array of states. The
  constructor wraps a side that is not an array into a one-element array.
\<close>

datatype sides = One state | Many "state list"

record move_decl =
  decl_from :: sides
  decl_to :: sides

record move =
  move_from :: "state list"
  move_to :: "state list"

fun arrayify_side :: "sides \<Rightarrow> state list" where
  "arrayify_side (One s) = [s]"
| "arrayify_side (Many ss) = ss"

definition normalise :: "move_decl \<Rightarrow> move" where
  "normalise d = \<lparr> move_from = arrayify_side (decl_from d), move_to = arrayify_side (decl_to d) \<rparr>"

text \<open>
  The machine: the current state (the \<open>_state\<close> weak map's entry for it), the normalised
  moves, and the calls of \<open>this.emit\<close> it has made so far, oldest first. The listeners an
  emission reaches are the Emitter's business (modelled further down); here a listener is
  taken not to call back into the machine.
\<close>

record sm =
  state :: state
  validMoves :: "move list"
  emitted :: "event list"

definition emit_sm :: "state \<Rightarrow> arg list \<Rightarrow> 'a sm_scheme \<Rightarrow> 'a sm_scheme" where
  "emit_sm eventName args m = m\<lparr> emitted := emitted m @ [(eventName, args)] \<rparr>"

text \<open>\<open>constructor (validMoves)\<close> of dist/tests.js: no state yet.\<close>

definition StateMachine :: "move_decl list \<Rightarrow> sm" where
  "StateMachine decls = \<lparr> state = None, validMoves = map normalise decls, emitted = [] \<rparr>"

text \<open>A template literal's rendering of a state, and \<open>'${s}'\<close>.\<close>

definition template :: "state \<Rightarrow> string" where
  "template s = (case s of None \<Rightarrow> ''undefined'' | Some x \<Rightarrow> x)"

definition quoted :: "state \<Rightarrow> string" where
  "quoted s = CHR 0x27 # template s @ [CHR 0x27]"

text \<open>\<open>Array.prototype.join\<close> on strings.\<close>

fun join :: "string \<Rightarrow> string list \<Rightarrow> string" where
  "join sep [] = []"
| "join sep [x] = x"
| "join sep (x # y # ys) = x @ sep @ join sep (y # ys)"

text \<open>\<open>this._validMoves.some(move => move.to.indexOf(state) > -1)\<close>\<close>

definition validTo :: "move list \<Rightarrow> state \<Rightarrow> bool" where
  "validTo mvs s = list_ex (\<lambda>mv. List.member (move_to mv) s) mvs"

text \<open>
  The body of \<open>this._validMoves.forEach\<close> in \<open>setState\<close>. The test reads \<open>this.state\<close>
  anew for every move, so after a move has fired it reads the new state; \<open>prevState\<close> was
  taken before the loop. The flag is \<open>moved\<close>.
\<close>

fun forEach_move :: "state \<Rightarrow> state \<Rightarrow> arg list \<Rightarrow> move list \<Rightarrow> bool \<times> 'a sm_scheme \<Rightarrow> bool \<times> 'a sm_scheme" where
  "forEach_move s prevState args [] acc = acc"
| "forEach_move s prevState args (mv # mvs) (moved, m) =
     (if List.member (move_from mv) (state m) \<and> List.member (move_to mv) s
      then forEach_move s prevState args mvs
             (True, emit_sm s args (emit_sm (Some ''state'') [AState s, AState prevState] (m\<lparr> state := s \<rparr>)))
      else forEach_move s prevState args mvs (moved, m))"

text \<open>
  The \<open>froms\<close> of the second error: the quoted sources of every move that has the state
  among its destinations, flattened. \<open>reduce\<close> without an initial value throws a
  TypeError on an empty array.
\<close>

definition froms :: "move list \<Rightarrow> state \<Rightarrow> error + string list" where
  "froms mvs s =
     (case map (\<lambda>mv. map quoted (move_from mv)) (filter (\<lambda>mv. List.member (move_to mv) s) mvs) of
        [] \<Rightarrow> Inl (Error ''TypeError'' ''Reduce of empty array with no initial value'')
      | x # xs \<Rightarrow> Inr (foldl (@) x xs))"

definition invalid_state_msg :: "state \<Rightarrow> string" where
  "invalid_state_msg s = ''Invalid state: '' @ template s"

definition invalid_move_msg :: "state \<Rightarrow> string list \<Rightarrow> state \<Rightarrow> string" where
  "invalid_move_msg s fs prevState =
     ''Can only move to '' @ quoted s @ '' from ''
       @ (if join '' or '' fs = [] then ''<unspecified>'' else join '' or '' fs)
       @ '' (not '' @ quoted prevState @ '')''"

text \<open>
  \<open>setState (state, ...args)\<close>. A throw leaves the object as it was at the throw, so the
  result is the error thrown, if any, and the machine after the call.
\<close>

definition setState :: "state \<Rightarrow> arg list \<Rightarrow> 'a sm_scheme \<Rightarrow> error option \<times> 'a sm_scheme" where
  "setState s args m =
     (if state m = s then (None, m)
      else if \<not> validTo (validMoves m) s
      then (Some (Error ''INVALID_MOVE'' (invalid_state_msg s)), m)
      else
        (case forEach_move s (state m) args (validMoves m) (False, m) of
           (moved, m') \<Rightarrow>
             if \<not> moved then
               (case froms (validMoves m) s of
                  Inl e \<Rightarrow> (Some e, m')
                | Inr fs \<Rightarrow> (Some (Error ''INVALID_MOVE'' (invalid_move_msg s fs (state m))), m'))
             else (None, m')))"

text \<open>Some declared move permits the move from \<open>cur\<close> to \<open>s\<close>.\<close>

definition permits :: "move list \<Rightarrow> state \<Rightarrow> state \<Rightarrow> bool" where
  "permits mvs cur s = list_ex (\<lambda>mv. List.member (move_from mv) cur \<and> List.member (move_to mv) s) mvs"

text \<open>The legal source states of a destination, in declaration order.\<close>

definition sources_of :: "move list \<Rightarrow> state \<Rightarrow> state list" where
  "sources_of mvs s = concat (map move_from (filter (\<lambda>mv. List.member (move_to mv) s) mvs))"

text \<open>
  One firing of a move, as the loop of \<open>setState\<close> does it: the commit of the new state,
  the \<open>state\<close> event with the new and the previous state, the event named after the new
  state with the extra arguments.
\<close>

definition transition :: "state \<Rightarrow> state \<Rightarrow> arg list \<Rightarrow> 'a sm_scheme \<Rightarrow> 'a sm_scheme" where
  "transition s prevState args m =
     emit_sm s args (emit_sm (Some ''state'') [AState s, AState prevState] (m\<lparr> state := s \<rparr>))"

section \<open>The orchestrator TestRunnerCore (index.mjs)\<close>

subsection \<open>The collaborators\<close>

text \<open>
  The test tree belongs to test-object-model, which is not part of these sources. The
  runner reads of a node: its children, whether it has a work function (\<open>testFn\<close>), its
  \<open>maxConcurrency\<close>, and what its \<open>run()\<close> does: the lifecycle events it emits (they
  bubble to the root, where the runner listens) and whether its future rejects. These
  are fields here, so the theorems hold for whatever a node does.
\<close>

datatype signal = Start | Pass | Fail | Skipped | Ignored

datatype tom =
  Tom (name: string) (testFn: bool) (maxConcurrency: nat)
      (run_signals: "(signal \<times> arg list) list") (run_rejects: "error option")
      (children: "tom list")

text \<open>\<open>Array.from(this.tom)\<close>: the node, then its descendants.\<close>

fun nodes :: "tom \<Rightarrow> tom list" where
  "nodes (Tom n f mc sg rj cs) = Tom n f mc sg rj cs # concat (map nodes cs)"

text \<open>
  The view: of its hooks only \<open>init\<close> is awaited, so only it can stop \<open>start()\<close>:
  \<open>None\<close> is a view without \<open>init\<close>, \<open>Some None\<close> an \<open>init\<close> whose future fulfils,
  \<open>Some (Some e)\<close> one that rejects with \<open>e\<close>. The other hooks are called after the
  runner's own events and return nothing the runner reads; they, and the listeners
  attached to the runner, are taken not to throw.
\<close>

record view =
  init :: "error option option"

text \<open>
  Modelled from the spec: \<open>lib/stats.mjs\<close> is not under src/. A new Stats has its
  counters at zero and its timestamps unset.
\<close>

definition Stats :: stats where
  "Stats = \<lparr> pass = 0, fail = 0, skip = 0, ignore = 0, total = 0, start_time = None, end_time = None \<rparr>"

text \<open>
  Modelled from the spec: \<open>lib/queue.mjs\<close> is not under src/. \<open>process()\<close> attempts every
  job, starting them in FIFO order; a job's failure is swallowed and the future always
  fulfils. A job is what it does to the runner and whether it fails; the effects of the
  jobs are taken one job after the other, in start order. The ceiling bounds how many
  run at once (see the scheduling model of the queue below), not what they do.
\<close>

definition process :: "('s \<Rightarrow> error option \<times> 's) list \<Rightarrow> nat \<Rightarrow> 's \<Rightarrow> 's" where
  "process jobs ceiling s = fold (\<lambda>job s. snd (job s)) jobs s"

subsection \<open>The runner\<close>

record runner = sm +
  ended :: bool
  stats :: stats
  view :: "view option"
  debug :: bool
  tom :: tom
  console_error :: "error list"

text \<open>
  Modelled from the spec: the constructor of fsm-base that \<open>index.mjs\<close> calls,
  \<open>super('pending', [...])\<close>, takes the initial state first and is not under src/
  (dist/tests.js bundles the one-argument constructor). "Constructed with an initial
  state and a list of legal moves": the machine is in the initial state, and the moves
  are normalised as the bundled constructor normalises them.
\<close>

definition StateMachine_from :: "state \<Rightarrow> move_decl list \<Rightarrow> sm" where
  "StateMachine_from s0 decls = (StateMachine decls)\<lparr> state := s0 \<rparr>"

text \<open>The moves the constructor of the runner declares.\<close>

definition runner_moves :: "move_decl list" where
  "runner_moves =
     [\<lparr> decl_from = One (Some ''pending''), decl_to = One (Some ''in-progress'') \<rparr>,
      \<lparr> decl_from = One (Some ''in-progress''), decl_to = One (Some ''pass'') \<rparr>,
      \<lparr> decl_from = One (Some ''in-progress''), decl_to = One (Some ''fail'') \<rparr>]"

text \<open>
  \<open>constructor (tom, options)\<close>. \<open>TOM.validate\<close> checks the shape of the tree, which the
  type \<open>tom\<close> has.
\<close>

definition TestRunnerCore :: "tom \<Rightarrow> view option \<Rightarrow> bool \<Rightarrow> runner" where
  "TestRunnerCore t v d =
     \<lparr> state = state (StateMachine_from (Some ''pending'') runner_moves),
       validMoves = validMoves (StateMachine_from (Some ''pending'') runner_moves),
       emitted = emitted (StateMachine_from (Some ''pending'') runner_moves),
       ended = False, stats = Stats, view = v, debug = d, tom = t, console_error = [] \<rparr>"

text \<open>
  The listeners on the tree: a counter of the statistics goes up, and the event is
  republished under the runner's name for it.
\<close>

fun on_tom :: "signal \<Rightarrow> arg list \<Rightarrow> runner \<Rightarrow> runner" where
  "on_tom Start args r = emit_sm (Some ''test-start'') args r"
| "on_tom Pass args r = emit_sm (Some ''test-pass'') args (r\<lparr> stats := (stats r)\<lparr> pass := pass (stats r) + 1 \<rparr> \<rparr>)"
| "on_tom Fail args r = emit_sm (Some ''test-fail'') args (r\<lparr> stats := (stats r)\<lparr> fail := fail (stats r) + 1 \<rparr> \<rparr>)"
| "on_tom Skipped args r = emit_sm (Some ''test-skip'') args (r\<lparr> stats := (stats r)\<lparr> skip := skip (stats r) + 1 \<rparr> \<rparr>)"
| "on_tom Ignored args r = emit_sm (Some ''test-ignore'') args (r\<lparr> stats := (stats r)\<lparr> ignore := ignore (stats r) + 1 \<rparr> \<rparr>)"

text \<open>What a node's \<open>run()\<close> does to the runner: its events reach the listeners.\<close>

definition tom_run :: "tom \<Rightarrow> runner \<Rightarrow> runner" where
  "tom_run t r = fold (\<lambda>(sg, args). on_tom sg args) (run_signals t) r"

text \<open>
  The handler \<open>.catch(err => { this.state = 'fail'; if (this.options.debug) ... })\<close>,
  which \<open>run\<close> and every job of \<open>runTomNode\<close> attach to a node's \<open>run()\<close>. The setter of
  \<open>state\<close> is \<open>setState\<close>; if it throws, the handler's future rejects.
\<close>

definition catch_fail :: "error \<Rightarrow> runner \<Rightarrow> error option \<times> runner" where
  "catch_fail err r =
     (case setState (Some ''fail'') [] r of
        (Some e, r') \<Rightarrow> (Some e, r')
      | (None, r') \<Rightarrow> (None, if debug r' then r'\<lparr> console_error := console_error r' @ [err] \<rparr> else r'))"

text \<open>\<open>run (tom)\<close>, and the same chain as a job of \<open>runTomNode\<close> builds it.\<close>

definition run :: "tom \<Rightarrow> runner \<Rightarrow> error option \<times> runner" where
  "run t r =
     (case run_rejects t of
        None \<Rightarrow> (None, tom_run t r)
      | Some err \<Rightarrow> catch_fail err (tom_run t r))"

text \<open>
  \<open>runTomNode (tom)\<close>: one job per child, which runs the child and schedules the
  child's own children (\<open>Promise.all([promise, this.runTomNode(test)])\<close>: both are
  called, whatever the first does); the jobs go through a queue with the node's
  ceiling. The future of \<open>runTomNode\<close> is resolved after \<open>process()\<close> and never rejected.
\<close>

fun runTomNode :: "tom \<Rightarrow> runner \<Rightarrow> runner" where
  "runTomNode (Tom n f mc sg rj cs) r =
     process (map (\<lambda>test r. case run test r of (e, r') \<Rightarrow> (e, runTomNode test r')) cs) mc r"

text \<open>
  \<open>if (this.view && this.view.init) await this.view.init()\<close>: the error the awaited
  future rejects with, if there is a view, it has the hook, and the hook's future rejects.
\<close>

definition view_init :: "view option \<Rightarrow> error option" where
  "view_init v = (case v of None \<Rightarrow> None | Some w \<Rightarrow> (case init w of None \<Rightarrow> None | Some i \<Rightarrow> i))"

text \<open>
  \<open>start ()\<close>, with the two readings of \<open>Date.now()\<close> as arguments. The result is the
  error the returned future rejects with, if any, and the runner then.
\<close>

definition start :: "nat \<Rightarrow> nat \<Rightarrow> runner \<Rightarrow> error option \<times> runner" where
  "start now0 now1 r =
     (case view_init (view r) of
        Some e \<Rightarrow> (Some e, r)
      | None \<Rightarrow>
         (let r1 = r\<lparr> stats := (stats r)\<lparr> start_time := Some now0 \<rparr> \<rparr>;
              testCount = length (filter testFn (nodes (tom r1)));
              r2 = r1\<lparr> stats := (stats r1)\<lparr> total := testCount \<rparr> \<rparr>
          in case setState (Some ''in-progress'') [ANum testCount] r2 of
               (Some e, r3) \<Rightarrow> (Some e, r3)
             | (None, r3) \<Rightarrow>
                (case run (tom r3) (emit_sm (Some ''start'') [ANum testCount] r3) of
                   (Some e, r4) \<Rightarrow> (Some e, r4)
                 | (None, r4) \<Rightarrow>
                    (let r5 = (runTomNode (tom r4) r4)\<lparr> ended := True \<rparr>
                     in case (if state r5 \<noteq> Some ''fail'' then setState (Some ''pass'') [] r5 else (None, r5)) of
                          (Some e, r6) \<Rightarrow> (Some e, r6)
                        | (None, r6) \<Rightarrow>
                           (let r7 = r6\<lparr> stats := (stats r6)\<lparr> end_time := Some now1 \<rparr> \<rparr>
                            in (None, emit_sm (Some ''end'') [AStats (stats r7)] r7))))))"

subsection \<open>Notions the properties of a run are stated with\<close>

text \<open>The runner's name for a lifecycle event of the tree.\<close>

definition republished :: "signal \<times> arg list \<Rightarrow> event" where
  "republished e =
     (case e of
        (Start, args) \<Rightarrow> (Some ''test-start'', args)
      | (Pass, args) \<Rightarrow> (Some ''test-pass'', args)
      | (Fail, args) \<Rightarrow> (Some ''test-fail'', args)
      | (Skipped, args) \<Rightarrow> (Some ''test-skip'', args)
      | (Ignored, args) \<Rightarrow> (Some ''test-ignore'', args))"

text \<open>Some node of the list fails: its \<open>run()\<close> rejects.\<close>

definition rejecting :: "tom list \<Rightarrow> bool" where
  "rejecting ts = list_ex (\<lambda>t. run_rejects t \<noteq> None) ts"

text \<open>A runner while its tree runs: it has the constructor's moves and is in progress or failed.\<close>

definition running :: "runner \<Rightarrow> bool" where
  "running r \<longleftrightarrow> validMoves r = map normalise runner_moves
      \<and> (state r = Some ''in-progress'' \<or> state r = Some ''fail'')"

text \<open>The \<open>end\<close> events a runner has emitted.\<close>

definition ends :: "runner \<Rightarrow> event list" where
  "ends r = filter (\<lambda>e. fst e = Some ''end'') (emitted r)"

text \<open>What stays as it is while the tree runs.\<close>

definition same_setup :: "runner \<Rightarrow> runner \<Rightarrow> bool" where
  "same_setup r r' \<longleftrightarrow> view r' = view r \<and> debug r' = debug r \<and> tom r' = tom r \<and> ended r' = ended r
      \<and> total (stats r') = total (stats r) \<and> ends r' = ends r"

text \<open>How often the nodes of a list emit a lifecycle event when they run.\<close>

definition signalled :: "signal \<Rightarrow> tom list \<Rightarrow> nat" where
  "signalled sg ts = length (filter (\<lambda>e. fst e = sg) (concat (map run_signals ts)))"

text \<open>The counters of \<open>r'\<close> are those of \<open>r\<close> plus what the nodes \<open>ts\<close> signalled.\<close>

definition counted :: "tom list \<Rightarrow> runner \<Rightarrow> runner \<Rightarrow> bool" where
  "counted ts r r' \<longleftrightarrow>
     pass (stats r') = pass (stats r) + signalled Pass ts
     \<and> fail (stats r') = fail (stats r) + signalled Fail ts
     \<and> skip (stats r') = skip (stats r) + signalled Skipped ts
     \<and> ignore (stats r') = ignore (stats r) + signalled Ignored ts"

text \<open>
  The runner \<open>r'\<close> that results from \<open>r\<close> once the nodes \<open>ts\<close> have run: it has failed
  if and only if it had failed before or one of the nodes failed, and its counters
  have counted what the nodes signalled.
\<close>

definition settled :: "tom list \<Rightarrow> runner \<Rightarrow> runner \<Rightarrow> bool" where
  "settled ts r r' \<longleftrightarrow> running r' \<and> same_setup r r' \<and> counted ts r r'
     \<and> (state r' = Some ''fail'' \<longleftrightarrow> state r = Some ''fail'' \<or> rejecting ts)"

text \<open>The runner when the tree starts to run: after the move to in-progress and the start event.\<close>

definition started :: "nat \<Rightarrow> runner \<Rightarrow> runner" where
  "started now0 r =
     (let n = length (filter testFn (nodes (tom r)))
      in emit_sm (Some ''start'') [ANum n]
           (transition (Some ''in-progress'') (Some ''pending'') [ANum n]
              (r\<lparr> stats := (stats r)\<lparr> start_time := Some now0, total := n \<rparr> \<rparr>)))"

text \<open>The runner when the traversal has settled, from the runner when the tree started to run.\<close>

definition traversed :: "runner \<Rightarrow> runner" where
  "traversed r = runTomNode (tom r) (snd (run (tom r) r))"

text \<open>
  The end of \<open>start ()\<close>, from the runner when the traversal has settled: \<open>ended\<close> is
  set, the runner moves to \<open>pass\<close> unless it has failed, the end time is taken, and the
  \<open>end\<close> event is emitted with the statistics.
\<close>

definition finished :: "nat \<Rightarrow> runner \<Rightarrow> runner" where
  "finished now1 r =
     (let r5 = r\<lparr> ended := True \<rparr>;
          r6 = (if state r5 \<noteq> Some ''fail'' then transition (Some ''pass'') (Some ''in-progress'') [] r5 else r5);
          r7 = r6\<lparr> stats := (stats r6)\<lparr> end_time := Some now1 \<rparr> \<rparr>
      in emit_sm (Some ''end'') [AStats (stats r7)] r7)"

section \<open>Test: a unit of work raced against a timeout\<close>

text \<open>
  Futures by when and how they settle. \<open>Now\<close> is the turn in which \<open>run()\<close> is called,
  before any timer of the host can fire; \<open>After t\<close> is \<open>t\<close> milliseconds later.
\<close>

datatype moment = Now | After nat

datatype 'v settlement = Fulfilled 'v | Rejected error

datatype 'v promise = Settles moment "'v settlement" | Never

fun before :: "moment \<Rightarrow> moment \<Rightarrow> bool" where
  "before Now (After t) = True"
| "before (After a) (After b) = (a < b)"
| "before m Now = False"

text \<open>
  \<open>Promise.race([p, q])\<close>: the future that settles first decides. When both settle at
  the same moment the order of their reactions is the host's; \<open>first_wins\<close> says which
  one it runs first.
\<close>

fun race :: "bool \<Rightarrow> 'v promise \<Rightarrow> 'v promise \<Rightarrow> 'v promise" where
  "race first_wins Never q = q"
| "race first_wins p Never = p"
| "race first_wins (Settles tp sp) (Settles tq sq) =
     (if before tp tq then Settles tp sp
      else if before tq tp then Settles tq sq
      else if first_wins then Settles tp sp else Settles tq sq)"

text \<open>
  \<open>setTimeout(callback, ms)\<close> of the host, to which \<open>raceTimeout\<close> hands the timeout as
  it is (a whole number of milliseconds here). Node keeps a delay from 1 to
  \<open>TIMEOUT_MAX\<close>, which is \<open>2^31 - 1\<close>, and sets every other delay to 1: the delay 0,
  and every delay above \<open>TIMEOUT_MAX\<close>. The timer fires after the delay it was set
  to, as long as the process lives (the timer is unreferenced).
\<close>

definition TIMEOUT_MAX :: nat where
  "TIMEOUT_MAX = 2147483647"

definition timer_delay :: "nat \<Rightarrow> nat" where
  "timer_delay ms = (if 1 \<le> ms \<and> ms \<le> TIMEOUT_MAX then ms else 1)"

text \<open>The decimal digits of a natural number, and reading them back.\<close>

definition digit :: "nat \<Rightarrow> char" where
  "digit d = char_of (48 + d)"

fun decimal :: "nat \<Rightarrow> string" where
  "decimal n = (if n < 10 then [digit n] else decimal (n div 10) @ [digit (n mod 10)])"

declare decimal.simps [simp del]


text \<open>
  A number in a template literal, \<open>${ms}\<close>: a whole number below \<open>10^21\<close> is written
  in decimal digits; from \<open>10^21\<close> on the host writes it in exponent notation, which
  is the host's own and is taken as the parameter \<open>exponent\<close>.
\<close>

definition number_string :: "(nat \<Rightarrow> string) \<Rightarrow> nat \<Rightarrow> string" where
  "number_string exponent ms = (if ms < 1000000000000000000000 then decimal ms else exponent ms)"

text \<open>
  \<open>raceTimeout (ms, msg)\<close>: a future that rejects when the host's timer fires, with
  \<open>msg\<close> or, when \<open>msg\<close> is undefined or empty, with the message that holds \<open>ms\<close>.
\<close>

definition raceTimeout :: "(nat \<Rightarrow> string) \<Rightarrow> nat \<Rightarrow> string option \<Rightarrow> 'v promise" where
  "raceTimeout exponent ms msg =
     Settles (After (timer_delay ms))
       (Rejected (Error ''Error''
          (case msg of
             None \<Rightarrow> ''Timeout expired ['' @ number_string exponent ms @ '']''
           | Some m \<Rightarrow> if m = [] then ''Timeout expired ['' @ number_string exponent ms @ '']'' else m)))"

text \<open>
  What a call of the work function does: it throws; it returns a value that is not a
  thenable (falsy, or without \<open>then\<close>); it returns a thenable on which
  \<open>result.then(resolve).catch(reject)\<close> goes through, and which settles as a future
  does (every promise is one); or it returns a thenable on which that expression
  throws, because \<open>then\<close> is not a function, or throws, or returns nothing that has
  a \<open>catch\<close>. Before such a throw, \<open>then\<close> may already have called \<open>resolve\<close> with a
  value: \<open>Thenable_throws (Some v) err\<close>.
\<close>

datatype 'v work =
    Throws error
  | Returns 'v
  | Thenable "'v promise"
  | Thenable_throws "'v option" error

text \<open>
  The unit: \<open>name\<close>, \<open>testFn\<close>, \<open>index\<close>, \<open>options.timeout\<close> and \<open>state\<close> (the fields are
  prefixed, since the state machine and the tree have fields of these names).
\<close>

record 'v test =
  test_name :: string
  test_testFn :: "'v work"
  test_index :: nat
  test_timeout :: nat
  test_state :: string

text \<open>\<open>constructor (name, testFn, options)\<close>: the timeout is 10000 unless the options give one.\<close>

definition Test :: "string \<Rightarrow> 'v work \<Rightarrow> nat option \<Rightarrow> 'v test" where
  "Test n fn opts =
     \<lparr> test_name = n, test_testFn = fn, test_index = 1,
       test_timeout = (case opts of None \<Rightarrow> 10000 | Some ms \<Rightarrow> ms), test_state = ''pending'' \<rparr>"

text \<open>
  \<open>run ()\<close> of the unit (part_001, lines 37 to 57): the unit after the call, and the
  future returned. \<open>this.state = 'passed'\<close> stands right after the call of the work
  function, before the value it returned is looked at; \<open>'failed'\<close> is set in the
  \<open>catch\<close>, which a throw of the work function reaches, and a throw of
  \<open>result.then(resolve).catch(reject)\<close> as well: then the state is set a second time,
  and \<open>reject\<close> settles the future unless \<open>resolve\<close> was called before the throw.
\<close>

definition Test_run :: "(nat \<Rightarrow> string) \<Rightarrow> bool \<Rightarrow> 'v test \<Rightarrow> 'v test \<times> 'v promise" where
  "Test_run exponent first_wins t =
     (case test_testFn t of
        Throws err \<Rightarrow>
          (t\<lparr> test_state := ''failed'' \<rparr>,
           race first_wins (Settles Now (Rejected err)) (raceTimeout exponent (test_timeout t) None))
      | Returns v \<Rightarrow>
          (t\<lparr> test_state := ''passed'' \<rparr>,
           race first_wins (Settles Now (Fulfilled v)) (raceTimeout exponent (test_timeout t) None))
      | Thenable p \<Rightarrow>
          (t\<lparr> test_state := ''passed'' \<rparr>,
           race first_wins p (raceTimeout exponent (test_timeout t) None))
      | Thenable_throws resolved err \<Rightarrow>
          (t\<lparr> test_state := ''passed'' \<rparr>\<lparr> test_state := ''failed'' \<rparr>,
           race first_wins
             (Settles Now (case resolved of None \<Rightarrow> Rejected err | Some v \<Rightarrow> Fulfilled v))
             (raceTimeout exponent (test_timeout t) None)))"


section \<open>Emitter (obso)\<close>

text \<open>
  A listener record \<open>{ eventName, handler, once }\<close>. Records and handlers are objects
  compared by identity: \<open>lid\<close> is the identity of the record (every \<open>on\<close> makes a new
  one), \<open>handler\<close> the identity of the function. A listener for every event has the
  name \<open>__ALL__\<close>.
\<close>

record listener =
  lid :: nat
  eventName :: string
  handler :: nat
  once :: bool

text \<open>
  The emitter: \<open>_listeners\<close> (the empty list also where the property is not yet
  there: the code treats the two alike), the next identity, and the calls of handlers
  made so far, each with its arguments. \<open>parent\<close> is unset: nothing bubbles.
\<close>

record emitter =
  listeners :: "listener list"
  next_lid :: nat
  calls :: "(nat \<times> arg list) list"

definition Emitter :: emitter where
  "Emitter = \<lparr> listeners = [], next_lid = 0, calls = [] \<rparr>"

text \<open>\<open>on (eventName, handler, options)\<close> and \<open>once (eventName, handler)\<close>.\<close>

definition on :: "string \<Rightarrow> nat \<Rightarrow> bool \<Rightarrow> emitter \<Rightarrow> emitter" where
  "on n h o_once em =
     em\<lparr> listeners := listeners em @ [\<lparr> lid = next_lid em, eventName = n, handler = h, once = o_once \<rparr>],
         next_lid := next_lid em + 1 \<rparr>"

definition once_on :: "string \<Rightarrow> nat \<Rightarrow> emitter \<Rightarrow> emitter" where
  "once_on n h em = on n h True em"

text \<open>\<open>findIndex\<close> followed by \<open>splice(index, 1)\<close> when an index was found.\<close>

fun remove_first :: "('a \<Rightarrow> bool) \<Rightarrow> 'a list \<Rightarrow> 'a list" where
  "remove_first P [] = []"
| "remove_first P (x # xs) = (if P x then xs else x # remove_first P xs)"

definition removeEventListener :: "string \<Rightarrow> nat \<Rightarrow> emitter \<Rightarrow> emitter" where
  "removeEventListener n h em =
     em\<lparr> listeners := remove_first (\<lambda>l. eventName l = n \<and> handler l = h) (listeners em) \<rparr>"

text \<open>
  What a handler does when it is called is the caller's code. Here a handler may call
  \<open>removeEventListener\<close> on the emitter: \<open>hs h\<close> lists the calls handler \<open>h\<close> makes, in
  order. (A handler that registers listeners or emits is outside this model.)
\<close>

type_synonym handlers = "nat \<Rightarrow> (string \<times> nat) list"

definition call_handler :: "handlers \<Rightarrow> listener \<Rightarrow> arg list \<Rightarrow> emitter \<Rightarrow> emitter" where
  "call_handler hs l args em =
     fold (\<lambda>(n, h). removeEventListener n h) (hs (handler l))
       (em\<lparr> calls := calls em @ [(handler l, args)] \<rparr>)"

lemma length_remove_first: "length (remove_first P xs) \<le> length xs"
  by (induction xs) auto

lemma length_fold_removeEventListener:
  "length (listeners (fold (\<lambda>(n, h). removeEventListener n h) rs em)) \<le> length (listeners em)"
proof (induction rs arbitrary: em)
  case Nil
  show ?case by simp
next
  case (Cons r rs)
  have "length (listeners (removeEventListener (fst r) (snd r) em)) \<le> length (listeners em)"
    by (simp add: removeEventListener_def length_remove_first)
  with Cons [of "removeEventListener (fst r) (snd r) em"] show ?case
    by (simp add: split_beta)
qed

lemma length_call_handler:
  "length (listeners (call_handler hs l args em)) \<le> length (listeners em)"
  using length_fold_removeEventListener [of "hs (handler l)" "em\<lparr> calls := calls em @ [(handler l, args)] \<rparr>"]
  by (simp add: call_handler_def)

text \<open>
  The loop of \<open>emit\<close> in dist/tests.js (lines 44 to 56): \<open>for (const listener of
  this._listeners)\<close> walks the array itself, by index, and reads its length anew at every
  step. A listener that matches is called, and pushed to \<open>toRemove\<close> if it is a \<open>once\<close>
  listener.
\<close>

function emit_loop :: "handlers \<Rightarrow> string \<Rightarrow> arg list \<Rightarrow> nat \<Rightarrow> listener list \<Rightarrow> emitter \<Rightarrow> listener list \<times> emitter" where
  "emit_loop hs ev args i toRemove em =
     (if i < length (listeners em) then
        (let l = listeners em ! i;
             handlerArgs = (if eventName l = ''__ALL__'' then AStr ev # args else args)
         in if eventName l = ''__ALL__'' \<or> eventName l = ev
            then emit_loop hs ev args (i + 1) (if once l then toRemove @ [l] else toRemove)
                   (call_handler hs l handlerArgs em)
            else emit_loop hs ev args (i + 1) toRemove em)
      else (toRemove, em))"
  by pat_completeness auto
termination
proof (relation "measure (\<lambda>(hs, ev, args, i, toRemove, em). length (listeners em) - i)")
  fix hs :: handlers and ev :: string and args :: "arg list" and i :: nat
    and toRemove :: "listener list" and em :: emitter and x xa
  assume "i < length (listeners em)" "x = listeners em ! i"
  then show "((hs, ev, args, i + 1, if once x then toRemove @ [x] else toRemove, call_handler hs x xa em),
              hs, ev, args, i, toRemove, em)
             \<in> measure (\<lambda>(hs, ev, args, i, toRemove, em). length (listeners em) - i)"
    using length_call_handler [of hs x xa em] by simp
qed auto

declare emit_loop.simps [simp del]

text \<open>
  \<open>this._listeners.splice(this._listeners.indexOf(listener), 1)\<close>: where the record is
  no longer in the array, \<open>indexOf\<close> gives -1 and \<open>splice(-1, 1)\<close> removes the last
  element.
\<close>

definition splice_indexOf :: "listener \<Rightarrow> listener list \<Rightarrow> listener list" where
  "splice_indexOf l ls = (if l \<in> set ls then remove1 l ls else butlast ls)"

text \<open>\<open>emit (eventName, ...args)\<close> of dist/tests.js (lines 39 to 65).\<close>

definition emit :: "handlers \<Rightarrow> string \<Rightarrow> arg list \<Rightarrow> emitter \<Rightarrow> emitter" where
  "emit hs ev args em =
     (if listeners em \<noteq> [] then
        (case emit_loop hs ev args 0 [] em of
           (toRemove, em') \<Rightarrow> em'\<lparr> listeners := fold splice_indexOf toRemove (listeners em') \<rparr>)
      else em)"

text \<open>
  \<open>emit\<close> of the bundle in part_001 (lines 92 to 110; dist/tests.js has the same text
  again at lines 729 to 747). \<open>forEach\<close> visits the indices below the length the array
  had at the start that are still there; handlers only remove, so these are the indices
  below the current length. The push to \<open>toRemove\<close> stands after the \<open>if\<close>, not in it.
\<close>

function emit_loop_bundle :: "handlers \<Rightarrow> string \<Rightarrow> arg list \<Rightarrow> nat \<Rightarrow> listener list \<Rightarrow> emitter \<Rightarrow> listener list \<times> emitter" where
  "emit_loop_bundle hs ev args i toRemove em =
     (if i < length (listeners em) then
        (let l = listeners em ! i;
             em' = (if eventName l = ev then call_handler hs l args em
                    else if eventName l = ''__ALL__'' then call_handler hs l (AStr ev # args) em
                    else em)
         in emit_loop_bundle hs ev args (i + 1) (if once l then toRemove @ [l] else toRemove) em')
      else (toRemove, em))"
  by pat_completeness auto
termination
proof (relation "measure (\<lambda>(hs, ev, args, i, toRemove, em). length (listeners em) - i)")
  fix hs :: handlers and ev :: string and args :: "arg list" and i :: nat
    and toRemove :: "listener list" and em :: emitter and x xa
  assume "i < length (listeners em)" "x = listeners em ! i"
    and "xa = (if eventName x = ev then call_handler hs x args em
               else if eventName x = ''__ALL__'' then call_handler hs x (AStr ev # args) em else em)"
  then show "((hs, ev, args, i + 1, if once x then toRemove @ [x] else toRemove, xa),
              hs, ev, args, i, toRemove, em)
             \<in> measure (\<lambda>(hs, ev, args, i, toRemove, em). length (listeners em) - i)"
    using length_call_handler [of hs x args em] length_call_handler [of hs x "AStr ev # args" em]
    by auto
qed auto

declare emit_loop_bundle.simps [simp del]

definition emit_bundle :: "handlers \<Rightarrow> string \<Rightarrow> arg list \<Rightarrow> emitter \<Rightarrow> emitter" where
  "emit_bundle hs ev args em =
     (if listeners em \<noteq> [] then
        (case emit_loop_bundle hs ev args 0 [] em of
           (toRemove, em') \<Rightarrow> em'\<lparr> listeners := fold splice_indexOf toRemove (listeners em') \<rparr>)
      else em)"

text \<open>
  A listener matches an event when its name is the event's or \<open>__ALL__\<close>; the call a
  matching listener gets: its handler, with the arguments of the event, behind the
  event's name for a listener to every event.
\<close>

definition matches :: "string \<Rightarrow> listener \<Rightarrow> bool" where
  "matches ev l \<longleftrightarrow> eventName l = ''__ALL__'' \<or> eventName l = ev"

definition handler_call :: "string \<Rightarrow> arg list \<Rightarrow> listener \<Rightarrow> nat \<times> arg list" where
  "handler_call ev args l = (handler l, if eventName l = ''__ALL__'' then AStr ev # args else args)"

text \<open>
  The call a matching listener gets from the \<open>emit\<close> of the bundle, which tests the
  event's name first.
\<close>

definition bundle_call :: "string \<Rightarrow> arg list \<Rightarrow> listener \<Rightarrow> nat \<times> arg list" where
  "bundle_call ev args l = (handler l, if eventName l = ev then args else AStr ev # args)"

section \<open>Queue: the scheduling of the jobs\<close>

text \<open>
  Modelled from the spec: \<open>lib/queue.mjs\<close> is not under src/ (\<open>index.mjs\<close> only calls
  \<open>new Queue(jobs, tom.maxConcurrency)\<close> and \<open>process()\<close>). The queue holds the pending
  job thunks in order and the ceiling; the model also keeps the jobs in flight (started,
  not yet settled) and every thunk invoked so far.
\<close>

record 'j queue =
  pending :: "'j list"
  ceiling_of :: nat
  inflight :: "'j list"
  invoked :: "'j list"

definition Queue :: "'j list \<Rightarrow> nat \<Rightarrow> 'j queue" where
  "Queue js n = \<lparr> pending = js, ceiling_of = n, inflight = [], invoked = [] \<rparr>"

text \<open>
  Modelled from the spec: "while in-flight < N and pending jobs remain, pop the next
  pending job (FIFO) and start it, incrementing in-flight". The result lists the queue
  after each start.
\<close>

fun start_while :: "'j list \<Rightarrow> 'j queue \<Rightarrow> 'j queue list" where
  "start_while [] q = []"
| "start_while (j # js) q =
     (if length (inflight q) < ceiling_of q
      then (let q' = q\<lparr> pending := js, inflight := inflight q @ [j], invoked := invoked q @ [j] \<rparr>
            in q' # start_while js q')
      else [])"

definition start_more :: "'j queue \<Rightarrow> 'j queue list" where
  "start_more q = start_while (pending q) q"

text \<open>
  Modelled from the spec: "on any job's settlement (success or failure), decrement
  in-flight and immediately attempt to start more jobs". Which job in flight settles
  next is not the queue's choice: \<open>after_settlements\<close> takes the order in which jobs
  settle and lists the queue after each settlement and each start that follows it (a
  settlement of a job that is not in flight does not happen and is passed over).
\<close>

definition settle :: "'j \<Rightarrow> 'j queue \<Rightarrow> 'j queue" where
  "settle j q = q\<lparr> inflight := remove1 j (inflight q) \<rparr>"

fun after_settlements :: "'j queue \<Rightarrow> 'j list \<Rightarrow> 'j queue list" where
  "after_settlements q [] = []"
| "after_settlements q (j # js) =
     (if j \<in> set (inflight q)
      then (let q1 = settle j q; qs = start_more q1
            in q1 # qs @ after_settlements (last (q1 # qs)) js)
      else after_settlements q js)"

text \<open>
  Modelled from the spec: every instant of \<open>process()\<close> on a queue of the jobs \<open>js\<close>
  with the ceiling \<open>n\<close>, for an order of settlements.
\<close>

definition instants :: "'j list \<Rightarrow> nat \<Rightarrow> 'j list \<Rightarrow> 'j queue list" where
  "instants js n settlements =
     (let q0 = Queue js n; qs = start_more q0
      in q0 # qs @ after_settlements (last (q0 # qs)) settlements)"

text \<open>What holds of the queue at every instant.\<close>

definition queue_inv :: "'j list \<Rightarrow> nat \<Rightarrow> 'j queue \<Rightarrow> bool" where
  "queue_inv js n q \<longleftrightarrow> ceiling_of q = n \<and> invoked q @ pending q = js
     \<and> set (inflight q) \<subseteq> set (invoked q) \<and> distinct (inflight q) \<and> length (inflight q) \<le> n"

section \<open>Concrete machines\<close>

text \<open>
  The moves of the \<open>TestRunner\<close> of dist/tests.js (\<open>undefined\<close> to \<open>pending\<close> to
  \<open>start\<close> to \<open>end\<close>), and that machine once its constructor has set it to \<open>pending\<close>.
\<close>

definition TestRunner_moves :: "move_decl list" where
  "TestRunner_moves =
     [\<lparr> decl_from = One None, decl_to = One (Some ''pending'') \<rparr>,
      \<lparr> decl_from = One (Some ''pending''), decl_to = One (Some ''start'') \<rparr>,
      \<lparr> decl_from = One (Some ''start''), decl_to = One (Some ''end'') \<rparr>]"

definition TestRunner_pending :: sm where
  "TestRunner_pending = snd (setState (Some ''pending'') [] (StateMachine TestRunner_moves))"

text \<open>
  A machine with two moves that both permit the move from \<open>a\<close> to \<open>b\<close>, the second
  of which also lists \<open>b\<close> among its sources; the machine is in \<open>a\<close>.
\<close>

definition overlap_moves :: "move_decl list" where
  "overlap_moves =
     [\<lparr> decl_from = One None, decl_to = One (Some ''a'') \<rparr>,
      \<lparr> decl_from = One (Some ''a''), decl_to = One (Some ''b'') \<rparr>,
      \<lparr> decl_from = Many [Some ''a'', Some ''b''], decl_to = Many [Some ''b'', Some ''c''] \<rparr>]"

definition overlap_in_a :: sm where
  "overlap_in_a = snd (setState (Some ''a'') [] (StateMachine overlap_moves))"

text \<open>
  Trees: the empty tree (a root without work and without children), and a root with two
  leaf tests, the first of which throws.
\<close>

definition empty_tree :: tom where
  "empty_tree = Tom ''root'' False 10 [(Ignored, [ANode ''root''])] None []"

definition two_leaves :: tom where
  "two_leaves =
     Tom ''root'' False 10 [(Ignored, [ANode ''root''])] None
       [Tom ''one'' True 10 [(Start, [ANode ''one'']), (Fail, [ANode ''one'', AErr (Error ''Error'' ''broken'')])]
          (Some (Error ''Error'' ''broken'')) [],
        Tom ''two'' True 10 [(Start, [ANode ''two'']), (Pass, [ANode ''two'', ANum 2])] None []]"

text \<open>
  The examples below render no number from \<open>10^21\<close> on; for them the host's exponent
  notation is left empty.
\<close>

definition no_exponent :: "nat \<Rightarrow> string" where
  "no_exponent n = []"

text \<open>
  Units of the suite in dist/tests.js: work that resolves after 300 ms against a
  timeout of 150 ms and of 350 ms, and work that returns a rejected future.
\<close>

definition slow_test :: "nat \<Rightarrow> arg test" where
  "slow_test ms = Test ''async test: timeout'' (Thenable (Settles (After 300) (Fulfilled (AStr ''ok'')))) (Some ms)"

definition rejected_test :: "arg test" where
  "rejected_test =
     Test ''failing async test: rejected'' (Thenable (Settles Now (Rejected (Error ''Error'' ''failed'')))) None"



text \<open>
  Handlers: none of them touches the emitter (\<open>quiet\<close>); handler 0 removes itself from
  the event \<open>e\<close> when it is called (\<open>self_removing\<close>).
\<close>

definition quiet :: handlers where
  "quiet h = []"

definition self_removing :: handlers where
  "self_removing h = (if h = 0 then [(''e'', 0)] else [])"

text \<open>The unit "failing sync test" of the suite: its work function throws.\<close>

definition throwing_test :: "arg test" where
  "throwing_test = Test ''failing sync test'' (Throws (Error ''Error'' ''failed'')) None"

section \<open>StateMachine: properties\<close>

lemma foldl_append_concat: "foldl (@) x xs = x @ concat xs"
  by (induction xs arbitrary: x) simp_all

lemma validTo_filter: "validTo mvs s \<longleftrightarrow> filter (\<lambda>mv. List.member (move_to mv) s) mvs \<noteq> []"
  by (induction mvs) (simp_all add: validTo_def)

lemma froms_sources:
  assumes "validTo mvs s"
  shows "froms mvs s = Inr (map quoted (sources_of mvs s))"
proof -
  from assms obtain mv rest where f: "filter (\<lambda>mv. s \<in> set (move_to mv)) mvs = mv # rest"
    by (auto simp: validTo_filter neq_Nil_conv)
  show ?thesis
    by (simp add: froms_def sources_of_def f foldl_append_concat map_concat comp_def)
qed

lemma forEach_move_no_match:
  "\<not> permits mvs (state m) s \<Longrightarrow> forEach_move s prev args mvs (moved, m) = (moved, m)"
  by (induction mvs) (auto simp: permits_def)

lemma TestRunner_pending_eq:
  "TestRunner_pending =
     \<lparr> state = Some ''pending'',
       validMoves =
         [\<lparr> move_from = [None], move_to = [Some ''pending''] \<rparr>,
          \<lparr> move_from = [Some ''pending''], move_to = [Some ''start''] \<rparr>,
          \<lparr> move_from = [Some ''start''], move_to = [Some ''end''] \<rparr>],
       emitted = [(Some ''state'', [AState (Some ''pending''), AState None]), (Some ''pending'', [])] \<rparr>"
  by (simp add: TestRunner_pending_def StateMachine_def TestRunner_moves_def normalise_def
      setState_def validTo_def emit_sm_def)

lemma setState_undeclared:
  assumes "s \<noteq> state m" "\<not> validTo (validMoves m) s"
  shows "setState s args m = (Some (Error ''INVALID_MOVE'' (invalid_state_msg s)), m)"
  using assms by (simp add: setState_def)

lemma setState_unpermitted:
  assumes "s \<noteq> state m" "validTo (validMoves m) s" "\<not> permits (validMoves m) (state m) s"
  shows "setState s args m =
           (Some (Error ''INVALID_MOVE''
              (invalid_move_msg s (map quoted (sources_of (validMoves m) s)) (state m))), m)"
  using assms by (auto simp: setState_def forEach_move_no_match froms_sources)

text \<open>
  C3. A call \<open>setState(newState, ...)\<close> with \<open>newState\<close> other than the current state
  fails with an \<open>INVALID_MOVE\<close> error and leaves the machine as it was (its state and
  its emissions), in both cases: when no declared move has \<open>newState\<close> among its
  destinations (message \<open>Invalid state: newState\<close>), and when some has but none permits
  the move from the current state; the message then lists the sources of every move
  that leads to \<open>newState\<close>, and the current state.
\<close>

theorem setState_invalid:
  assumes "s \<noteq> state m"
  shows "(\<not> validTo (validMoves m) s \<longrightarrow>
            setState s args m = (Some (Error ''INVALID_MOVE'' (invalid_state_msg s)), m))
       \<and> (validTo (validMoves m) s \<and> \<not> permits (validMoves m) (state m) s \<longrightarrow>
            setState s args m =
              (Some (Error ''INVALID_MOVE''
                 (invalid_move_msg s (map quoted (sources_of (validMoves m) s)) (state m))), m))"
  using assms by (auto simp: setState_def forEach_move_no_match froms_sources)

theorem setState_invalid_witness:
  "Some ''bogus'' \<noteq> state TestRunner_pending
   \<and> \<not> validTo (validMoves TestRunner_pending) (Some ''bogus'')
   \<and> setState (Some ''bogus'') [] TestRunner_pending
       = (Some (Error ''INVALID_MOVE'' ''Invalid state: bogus''), TestRunner_pending)
   \<and> Some ''end'' \<noteq> state TestRunner_pending
   \<and> validTo (validMoves TestRunner_pending) (Some ''end'')
   \<and> \<not> permits (validMoves TestRunner_pending) (state TestRunner_pending) (Some ''end'')
   \<and> sources_of (validMoves TestRunner_pending) (Some ''end'') = [Some ''start'']
   \<and> setState (Some ''end'') [] TestRunner_pending
       = (Some (Error ''INVALID_MOVE''
            (''Can only move to '' @ [CHR 0x27] @ ''end'' @ [CHR 0x27] @ '' from ''
              @ [CHR 0x27] @ ''start'' @ [CHR 0x27] @ '' (not '' @ [CHR 0x27] @ ''pending'' @ [CHR 0x27] @ '')'')),
          TestRunner_pending)"
  using setState_invalid [of "Some ''bogus''" TestRunner_pending "[]"]
        setState_invalid [of "Some ''end''" TestRunner_pending "[]"]
  by (simp add: TestRunner_pending_eq validTo_def permits_def sources_of_def
      invalid_state_msg_def invalid_move_msg_def quoted_def template_def)

lemma overlap_in_a_eq:
  "overlap_in_a =
     \<lparr> state = Some ''a'',
       validMoves =
         [\<lparr> move_from = [None], move_to = [Some ''a''] \<rparr>,
          \<lparr> move_from = [Some ''a''], move_to = [Some ''b''] \<rparr>,
          \<lparr> move_from = [Some ''a'', Some ''b''], move_to = [Some ''b'', Some ''c''] \<rparr>],
       emitted = [(Some ''state'', [AState (Some ''a''), AState None]), (Some ''a'', [])] \<rparr>"
  by (simp add: overlap_in_a_def StateMachine_def overlap_moves_def normalise_def
      setState_def validTo_def emit_sm_def)

text \<open>
  C4, at the failing input. The machine is in \<open>a\<close>; its moves \<open>a \<rightarrow> b\<close> and
  \<open>[a, b] \<rightarrow> [b, c]\<close> both permit the move to \<open>b\<close>. \<open>setState('b', 7)\<close> succeeds, and the
  loop fires twice: the first move fires from \<open>a\<close>; the loop then reads the state anew,
  finds \<open>b\<close>, and the second move, which has \<open>b\<close> among its sources and its
  destinations, fires as well. Two \<open>state\<close> events and two \<open>b\<close> events are emitted for
  the one call.
\<close>

theorem setState_fires_twice:
  "setState (Some ''b'') [ANum 7] overlap_in_a =
     (None, overlap_in_a\<lparr> state := Some ''b'',
        emitted := emitted overlap_in_a @
          [(Some ''state'', [AState (Some ''b''), AState (Some ''a'')]), (Some ''b'', [ANum 7]),
           (Some ''state'', [AState (Some ''b''), AState (Some ''a'')]), (Some ''b'', [ANum 7])] \<rparr>)"
  by (simp add: overlap_in_a_eq setState_def validTo_def emit_sm_def)

lemma setState_same: "state m = s \<Longrightarrow> setState s args m = (None, m)"
  by (simp add: setState_def)

lemma forEach_move_after:
  assumes "\<forall>mv \<in> set mvs. \<not> (List.member (move_from mv) s \<and> List.member (move_to mv) s)" "state m = s"
  shows "forEach_move s prev args mvs (moved, m) = (moved, m)"
  using assms by (induction mvs) auto

lemma forEach_move_once:
  assumes "permits mvs (state m) s" "state m \<noteq> s"
      and "\<forall>mv \<in> set mvs. \<not> (List.member (move_from mv) s \<and> List.member (move_to mv) s)"
  shows "forEach_move s prev args mvs (moved, m) = (True, transition s prev args m)"
  using assms
proof (induction mvs arbitrary: moved)
  case Nil
  then show ?case by (simp add: permits_def)
next
  case (Cons mv mvs)
  show ?case
  proof (cases "List.member (move_from mv) (state m) \<and> List.member (move_to mv) s")
    case True
    have "forEach_move s prev args mvs (True, transition s prev args m) = (True, transition s prev args m)"
      using Cons.prems(3) by (intro forEach_move_after) (auto simp: transition_def emit_sm_def)
    with True show ?thesis by (simp add: transition_def)
  next
    case False
    with Cons.prems have "permits mvs (state m) s" by (auto simp: permits_def)
    with Cons False show ?thesis by auto
  qed
qed

lemma permits_validTo: "permits mvs cur s \<Longrightarrow> validTo mvs s"
  by (induction mvs) (auto simp: permits_def validTo_def)

text \<open>
  What holds of a successful call with a new state: when some declared move permits
  the move, and no declared move lists the new state among both its sources and its
  destinations, the call commits the new state once and emits one \<open>state\<close> event, with
  the new and the previous state, followed by one event named after the new state with
  the extra arguments. (A call with the current state changes nothing:
  \<open>setState_same\<close>.)
\<close>

theorem setState_commits_once:
  assumes "state m \<noteq> s" "permits (validMoves m) (state m) s"
      and "\<forall>mv \<in> set (validMoves m). \<not> (List.member (move_from mv) s \<and> List.member (move_to mv) s)"
  shows "setState s args m = (None, transition s (state m) args m)"
  using assms by (simp add: setState_def permits_validTo forEach_move_once)

theorem setState_commits_once_witness:
  "state TestRunner_pending \<noteq> Some ''start''
   \<and> permits (validMoves TestRunner_pending) (state TestRunner_pending) (Some ''start'')
   \<and> setState (Some ''start'') [ANum 2] TestRunner_pending =
       (None, TestRunner_pending\<lparr> state := Some ''start'',
          emitted := emitted TestRunner_pending @
            [(Some ''state'', [AState (Some ''start''), AState (Some ''pending'')]),
             (Some ''start'', [ANum 2])] \<rparr>)"
proof -
  have a: "state TestRunner_pending \<noteq> Some ''start''" by (simp add: TestRunner_pending_eq)
  have b: "permits (validMoves TestRunner_pending) (state TestRunner_pending) (Some ''start'')"
    by (simp add: TestRunner_pending_eq permits_def)
  have c: "\<forall>mv \<in> set (validMoves TestRunner_pending).
             \<not> (List.member (move_from mv) (Some ''start'') \<and> List.member (move_to mv) (Some ''start''))"
    by (simp add: TestRunner_pending_eq)
  from setState_commits_once [OF a b c, of "[ANum 2]"] a b show ?thesis
    by (simp add: transition_def emit_sm_def TestRunner_pending_eq)
qed

section \<open>The orchestrator: properties\<close>

lemma runner_moves_eq: "map normalise runner_moves =
  [\<lparr> move_from = [Some ''pending''], move_to = [Some ''in-progress''] \<rparr>,
   \<lparr> move_from = [Some ''in-progress''], move_to = [Some ''pass''] \<rparr>,
   \<lparr> move_from = [Some ''in-progress''], move_to = [Some ''fail''] \<rparr>]"
  by (simp add: runner_moves_def normalise_def)

lemma setState_in_progress:
  assumes "validMoves r = map normalise runner_moves" "state r = Some ''pending''"
  shows "setState (Some ''in-progress'') args r = (None, transition (Some ''in-progress'') (Some ''pending'') args r)"
  using assms by (simp add: setState_def runner_moves_eq validTo_def transition_def emit_sm_def)

lemma setState_fail:
  assumes "validMoves r = map normalise runner_moves" "state r = Some ''in-progress''"
  shows "setState (Some ''fail'') args r = (None, transition (Some ''fail'') (Some ''in-progress'') args r)"
  using assms by (simp add: setState_def runner_moves_eq validTo_def transition_def emit_sm_def)

lemma setState_pass:
  assumes "validMoves r = map normalise runner_moves" "state r = Some ''in-progress''"
  shows "setState (Some ''pass'') args r = (None, transition (Some ''pass'') (Some ''in-progress'') args r)"
  using assms by (simp add: setState_def runner_moves_eq validTo_def transition_def emit_sm_def)

lemma transition_fields [simp]:
  "state (transition s p args r) = s"
  "validMoves (transition s p args r) = validMoves r"
  "emitted (transition s p args r) = emitted r @ [(Some ''state'', [AState s, AState p]), (s, args)]"
  "ended (transition s p args r) = ended r"
  "stats (transition s p args r) = stats r"
  "view (transition s p args r) = view r"
  "debug (transition s p args r) = debug r"
  "tom (transition s p args r) = tom r"
  by (simp_all add: transition_def emit_sm_def)

lemma ends_transition [simp]:
  "s \<noteq> Some ''end'' \<Longrightarrow> ends (transition s p args r) = ends r"
  by (simp add: ends_def)

lemma ends_updates [simp]:
  "ends (r\<lparr> console_error := c \<rparr>) = ends r"
  "ends (r\<lparr> ended := b \<rparr>) = ends r"
  "ends (r\<lparr> stats := st \<rparr>) = ends r"
  by (simp_all add: ends_def)

lemma republished_not_end: "fst (republished e) \<noteq> Some ''end''"
  by (cases e; cases "fst e") (simp_all add: republished_def)

lemma ends_republished [simp]:
  "emitted r' = emitted r @ map republished es \<Longrightarrow> ends r' = ends r"
  by (simp add: ends_def filter_empty_conv republished_not_end)

lemma on_tom_fields [simp]:
  "state (on_tom sg args r) = state r"
  "validMoves (on_tom sg args r) = validMoves r"
  "emitted (on_tom sg args r) = emitted r @ [republished (sg, args)]"
  "ended (on_tom sg args r) = ended r"
  "view (on_tom sg args r) = view r"
  "debug (on_tom sg args r) = debug r"
  "tom (on_tom sg args r) = tom r"
  "total (stats (on_tom sg args r)) = total (stats r)"
  by (cases sg; simp add: emit_sm_def republished_def)+

lemma tom_run_signals:
  "state (fold (\<lambda>(sg, args). on_tom sg args) sgs r) = state r"
  "validMoves (fold (\<lambda>(sg, args). on_tom sg args) sgs r) = validMoves r"
  "emitted (fold (\<lambda>(sg, args). on_tom sg args) sgs r) = emitted r @ map republished sgs"
  "ended (fold (\<lambda>(sg, args). on_tom sg args) sgs r) = ended r"
  "view (fold (\<lambda>(sg, args). on_tom sg args) sgs r) = view r"
  "debug (fold (\<lambda>(sg, args). on_tom sg args) sgs r) = debug r"
  "tom (fold (\<lambda>(sg, args). on_tom sg args) sgs r) = tom r"
  "total (stats (fold (\<lambda>(sg, args). on_tom sg args) sgs r)) = total (stats r)"
  by (induction sgs arbitrary: r; simp add: split_beta)+

lemma tom_run_fields [simp]:
  "state (tom_run t r) = state r"
  "validMoves (tom_run t r) = validMoves r"
  "emitted (tom_run t r) = emitted r @ map republished (run_signals t)"
  "ended (tom_run t r) = ended r"
  "view (tom_run t r) = view r"
  "debug (tom_run t r) = debug r"
  "tom (tom_run t r) = tom r"
  "total (stats (tom_run t r)) = total (stats r)"
  by (simp_all add: tom_run_def tom_run_signals)

lemma on_tom_counts:
  "pass (stats (on_tom sg args r)) = pass (stats r) + (if sg = Pass then 1 else 0)"
  "fail (stats (on_tom sg args r)) = fail (stats r) + (if sg = Fail then 1 else 0)"
  "skip (stats (on_tom sg args r)) = skip (stats r) + (if sg = Skipped then 1 else 0)"
  "ignore (stats (on_tom sg args r)) = ignore (stats r) + (if sg = Ignored then 1 else 0)"
  by (cases sg; simp add: emit_sm_def)+

lemma fold_on_tom_counts:
  "pass (stats (fold (\<lambda>(sg, args). on_tom sg args) sgs r))
     = pass (stats r) + length (filter (\<lambda>e. fst e = Pass) sgs)"
  "fail (stats (fold (\<lambda>(sg, args). on_tom sg args) sgs r))
     = fail (stats r) + length (filter (\<lambda>e. fst e = Fail) sgs)"
  "skip (stats (fold (\<lambda>(sg, args). on_tom sg args) sgs r))
     = skip (stats r) + length (filter (\<lambda>e. fst e = Skipped) sgs)"
  "ignore (stats (fold (\<lambda>(sg, args). on_tom sg args) sgs r))
     = ignore (stats r) + length (filter (\<lambda>e. fst e = Ignored) sgs)"
  by (induction sgs arbitrary: r; simp add: split_beta on_tom_counts)+

lemma counted_tom_run: "counted [t] r (tom_run t r)"
  by (simp add: counted_def signalled_def tom_run_def fold_on_tom_counts)

lemma counted_Nil [simp]: "counted [] r r"
  by (simp add: counted_def signalled_def)

lemma counted_trans: "counted xs a b \<Longrightarrow> counted ys b c \<Longrightarrow> counted (xs @ ys) a c"
  by (simp add: counted_def signalled_def)

lemma counted_stats: "stats r' = stats r \<Longrightarrow> counted ts a r \<Longrightarrow> counted ts a r'"
  by (simp add: counted_def)

lemma catch_fail_running:
  assumes "running r"
  shows "fst (catch_fail err r) = None \<and> running (snd (catch_fail err r))
     \<and> state (snd (catch_fail err r)) = Some ''fail'' \<and> same_setup r (snd (catch_fail err r))
     \<and> stats (snd (catch_fail err r)) = stats r"
proof (cases "state r = Some ''fail''")
  case True
  then show ?thesis using assms
    by (simp add: catch_fail_def setState_same running_def same_setup_def)
next
  case False
  with assms have "state r = Some ''in-progress''" and "validMoves r = map normalise runner_moves"
    by (simp_all add: running_def)
  then show ?thesis
    by (simp add: catch_fail_def setState_fail running_def same_setup_def)
qed

lemma run_running:
  assumes "running r"
  shows "fst (run t r) = None \<and> running (snd (run t r))
     \<and> (state (snd (run t r)) = Some ''fail'' \<longleftrightarrow> state r = Some ''fail'' \<or> run_rejects t \<noteq> None)
     \<and> same_setup r (snd (run t r)) \<and> counted [t] r (snd (run t r))"
proof (cases "run_rejects t")
  case None
  with assms show ?thesis by (simp add: run_def running_def same_setup_def counted_tom_run)
next
  case (Some err)
  from assms have "running (tom_run t r)" by (simp add: running_def)
  from catch_fail_running [OF this, of err] Some show ?thesis
    by (simp add: run_def same_setup_def counted_stats [OF _ counted_tom_run])
qed

lemma same_setup_trans: "same_setup a b \<Longrightarrow> same_setup b c \<Longrightarrow> same_setup a c"
  by (simp add: same_setup_def)

lemma same_setup_refl [simp]: "same_setup a a"
  by (simp add: same_setup_def)

lemma rejecting_append [simp]: "rejecting (xs @ ys) \<longleftrightarrow> rejecting xs \<or> rejecting ys"
  by (simp add: rejecting_def)

lemma rejecting_Nil [simp]: "\<not> rejecting []"
  by (simp add: rejecting_def)

lemma rejecting_Cons [simp]: "rejecting (t # ts) \<longleftrightarrow> run_rejects t \<noteq> None \<or> rejecting ts"
  by (simp add: rejecting_def)

lemma settled_trans:
  "settled xs a b \<Longrightarrow> settled ys b c \<Longrightarrow> settled (xs @ ys) a c"
  by (auto simp: settled_def intro: same_setup_trans counted_trans)

lemma process_jobs_settled:
  assumes "\<And>c r. c \<in> set cs \<Longrightarrow> running r \<Longrightarrow> settled (concat (map nodes (children c))) r (runTomNode c r)"
      and "running r"
  shows "settled (concat (map nodes cs)) r
           (process (map (\<lambda>test r. case run test r of (e, r') \<Rightarrow> (e, runTomNode test r')) cs) mc r)"
  using assms
proof (induction cs arbitrary: r)
  case Nil
  then show ?case by (simp add: process_def settled_def)
next
  case (Cons c cs)
  let ?r1 = "snd (run c r)"
  let ?r2 = "runTomNode c ?r1"
  from run_running [OF Cons.prems(2), of c]
  have r1: "settled [c] r ?r1" by (simp add: settled_def)
  then have run1: "running ?r1" by (simp add: settled_def)
  from Cons.prems(1) [of c ?r1] run1
  have r2: "settled (concat (map nodes (children c))) ?r1 ?r2" by simp
  then have run2: "running ?r2" by (simp add: settled_def)
  have nodes_c: "nodes c = c # concat (map nodes (children c))" by (cases c) simp
  from settled_trans [OF r1 r2] have s12: "settled (nodes c) r ?r2" by (simp add: nodes_c)
  have rest: "settled (concat (map nodes cs)) ?r2
     (process (map (\<lambda>test r. case run test r of (e, r') \<Rightarrow> (e, runTomNode test r')) cs) mc ?r2)"
    using Cons.prems(1) run2 by (intro Cons.IH) auto
  from settled_trans [OF s12 rest] show ?case
    by (simp add: process_def split_beta)
qed

lemma runTomNode_settled:
  "running r \<Longrightarrow> settled (concat (map nodes (children t))) r (runTomNode t r)"
proof (induction t arbitrary: r)
  case (Tom n f mc sg rj cs)
  have "settled (concat (map nodes cs)) r
           (process (map (\<lambda>test r. case run test r of (e, r') \<Rightarrow> (e, runTomNode test r')) cs) mc r)"
    using Tom by (intro process_jobs_settled) auto
  then show ?case by simp
qed


lemma setState_in_progress_again:
  assumes "validMoves r = map normalise runner_moves" "state r = Some ''pass'' \<or> state r = Some ''fail''"
  shows "setState (Some ''in-progress'') args r =
           (Some (Error ''INVALID_MOVE''
              (invalid_move_msg (Some ''in-progress'') [quoted (Some ''pending'')] (state r))), r)"
proof -
  have "Some ''in-progress'' \<noteq> state r" using assms(2) by auto
  moreover have "validTo (validMoves r) (Some ''in-progress'')"
    by (simp add: assms(1) runner_moves_eq validTo_def)
  moreover have "\<not> permits (validMoves r) (state r) (Some ''in-progress'')"
    using assms(2) by (auto simp: assms(1) runner_moves_eq permits_def)
  moreover have "sources_of (validMoves r) (Some ''in-progress'') = [Some ''pending'']"
    by (simp add: assms(1) runner_moves_eq sources_of_def)
  ultimately show ?thesis
    using setState_unpermitted [of "Some ''in-progress''" r args] by simp
qed

lemma started_fields:
  "state (started now0 r) = Some ''in-progress''"
  "validMoves (started now0 r) = validMoves r"
  "view (started now0 r) = view r"
  "debug (started now0 r) = debug r"
  "tom (started now0 r) = tom r"
  "ended (started now0 r) = ended r"
  "total (stats (started now0 r)) = length (filter testFn (nodes (tom r)))"
  "emitted (started now0 r) = emitted r @
     [(Some ''state'', [AState (Some ''in-progress''), AState (Some ''pending'')]),
      (Some ''in-progress'', [ANum (length (filter testFn (nodes (tom r))))]),
      (Some ''start'', [ANum (length (filter testFn (nodes (tom r))))])]"
  by (simp_all add: started_def Let_def emit_sm_def)

lemma ends_started: "ends (started now0 r) = ends r"
  by (simp add: ends_def started_fields)

lemma traversed_settled:
  assumes "running r"
  shows "settled (nodes (tom r)) r (traversed r)"
proof -
  from run_running [OF assms, of "tom r"]
  have a: "settled [tom r] r (snd (run (tom r) r))" by (simp add: settled_def)
  then have "running (snd (run (tom r) r))" by (simp add: settled_def)
  from runTomNode_settled [OF this, of "tom r"]
  have b: "settled (concat (map nodes (children (tom r)))) (snd (run (tom r) r)) (traversed r)"
    by (simp add: traversed_def)
  have "nodes (tom r) = tom r # concat (map nodes (children (tom r)))" by (cases "tom r") simp
  with settled_trans [OF a b] show ?thesis by simp
qed

lemma start_unfold:
  assumes "view_init (view r) = None" "validMoves r = map normalise runner_moves" "state r = Some ''pending''"
  shows "start now0 now1 r = (None, finished now1 (traversed (started now0 r)))"
proof -
  let ?n = "length (filter testFn (nodes (tom r)))"
  let ?r2 = "r\<lparr> stats := (stats r)\<lparr> start_time := Some now0, total := ?n \<rparr> \<rparr>"
  have s1: "setState (Some ''in-progress'') [ANum ?n] ?r2
              = (None, transition (Some ''in-progress'') (Some ''pending'') [ANum ?n] ?r2)"
    using assms by (intro setState_in_progress) simp_all
  let ?r3 = "started now0 r"
  have r3: "running ?r3" by (simp add: running_def started_fields assms)
  have tom3: "tom ?r3 = tom r" by (simp add: started_fields)
  from run_running [OF r3, of "tom r"] obtain r4 where r4: "run (tom r) ?r3 = (None, r4)"
    by (cases "run (tom r) ?r3") auto
  have t: "traversed ?r3 = runTomNode (tom r) r4"
    by (simp add: traversed_def tom3 r4)
  from traversed_settled [OF r3] have set: "settled (nodes (tom r)) ?r3 (traversed ?r3)"
    by (simp add: tom3)
  then have run5: "running (traversed ?r3)" and same: "same_setup ?r3 (traversed ?r3)"
    by (simp_all add: settled_def)
  have tom4: "tom r4 = tom r" using run_running [OF r3, of "tom r"] r4 tom3
    by (simp add: same_setup_def)
  let ?r5 = "(traversed ?r3)\<lparr> ended := True \<rparr>"
  have s2: "state ?r5 \<noteq> Some ''fail'' \<Longrightarrow>
        setState (Some ''pass'') [] ?r5 = (None, transition (Some ''pass'') (Some ''in-progress'') [] ?r5)"
    using run5 by (intro setState_pass) (auto simp: running_def)
  show ?thesis
    using s2
    by (simp add: start_def assms(1) Let_def s1 r4 tom4 t [symmetric] finished_def
        started_def [unfolded Let_def, symmetric])
qed


lemma TestRunnerCore_fields:
  "state (TestRunnerCore t v d) = Some ''pending''"
  "validMoves (TestRunnerCore t v d) = map normalise runner_moves"
  "emitted (TestRunnerCore t v d) = []"
  "view (TestRunnerCore t v d) = v"
  "tom (TestRunnerCore t v d) = t"
  "ended (TestRunnerCore t v d) = False"
  by (simp_all add: TestRunnerCore_def StateMachine_from_def StateMachine_def)

lemma finished_fields:
  "ended (finished now1 r)"
  "validMoves (finished now1 r) = validMoves r"
  "view (finished now1 r) = view r"
  "tom (finished now1 r) = tom r"
  "total (stats (finished now1 r)) = total (stats r)"
  "last (emitted (finished now1 r)) = (Some ''end'', [AStats (stats (finished now1 r))])"
  "state (finished now1 r) = (if state r = Some ''fail'' then Some ''fail'' else Some ''pass'')"
  by (simp_all add: finished_def Let_def emit_sm_def)

lemma ends_finished:
  "ends (finished now1 r) = ends r @ [(Some ''end'', [AStats (stats (finished now1 r))])]"
  by (simp add: ends_def finished_def Let_def emit_sm_def transition_def)

lemma start_fresh:
  assumes "view_init v = None"
  shows "start now0 now1 (TestRunnerCore t v d)
           = (None, finished now1 (traversed (started now0 (TestRunnerCore t v d))))"
  using assms by (intro start_unfold) (simp_all add: TestRunnerCore_fields)

lemma traversed_fresh:
  "settled (nodes t) (started now0 (TestRunnerCore t v d)) (traversed (started now0 (TestRunnerCore t v d)))"
proof -
  have "running (started now0 (TestRunnerCore t v d))"
    by (simp add: running_def started_fields TestRunnerCore_fields)
  from traversed_settled [OF this] show ?thesis
    by (simp add: started_fields TestRunnerCore_fields)
qed

text \<open>
  C1. Whatever the tree and whichever of its nodes fail (a node fails when the future
  of its \<open>run()\<close> rejects: its work threw, its future rejected, or it timed out),
  \<open>start()\<close> on a new runner does not reject, provided the view's \<open>init\<close>, if any, did
  not: every failure is caught by the handler on the node's \<open>run()\<close>. The runner ends
  in \<open>fail\<close> if some node failed and in \<open>pass\<close> otherwise, \<open>ended\<close> is set, the total
  is the number of nodes with a work function, and the \<open>end\<close> event is emitted
  once, as the last event, with the statistics as they are then.
\<close>

theorem start_captures_failures:
  assumes "view_init v = None"
  shows "\<exists>r'. start now0 now1 (TestRunnerCore t v d) = (None, r')
           \<and> ended r'
           \<and> last (emitted r') = (Some ''end'', [AStats (stats r')])
           \<and> ends r' = [(Some ''end'', [AStats (stats r')])]
           \<and> total (stats r') = length (filter testFn (nodes t))
           \<and> state r' = (if rejecting (nodes t) then Some ''fail'' else Some ''pass'')"
proof -
  let ?r3 = "started now0 (TestRunnerCore t v d)"
  have st: "state ?r3 \<noteq> Some ''fail''" by (simp add: started_fields)
  have e3: "ends ?r3 = []" by (simp add: ends_started) (simp add: ends_def TestRunnerCore_fields)
  from traversed_fresh [of t now0 v d]
  have "state (traversed ?r3) = Some ''fail'' \<longleftrightarrow> rejecting (nodes t)"
    and "total (stats (traversed ?r3)) = length (filter testFn (nodes t))"
    and "ends (traversed ?r3) = []"
    using st e3 by (simp_all add: settled_def same_setup_def started_fields TestRunnerCore_fields)
  then show ?thesis
    by (simp add: start_fresh [OF assms] finished_fields ends_finished)
qed

theorem start_captures_failures_witness:
  "view_init None = None
   \<and> rejecting (nodes two_leaves)
   \<and> fst (start 1 2 (TestRunnerCore two_leaves None False)) = None
   \<and> ended (snd (start 1 2 (TestRunnerCore two_leaves None False)))
   \<and> state (snd (start 1 2 (TestRunnerCore two_leaves None False))) = Some ''fail''
   \<and> total (stats (snd (start 1 2 (TestRunnerCore two_leaves None False)))) = 2
   \<and> last (emitted (snd (start 1 2 (TestRunnerCore two_leaves None False))))
        = (Some ''end'', [AStats (stats (snd (start 1 2 (TestRunnerCore two_leaves None False))))])
   \<and> ends (snd (start 1 2 (TestRunnerCore two_leaves None False)))
        = [(Some ''end'', [AStats (stats (snd (start 1 2 (TestRunnerCore two_leaves None False))))])]"
proof -
  have v: "view_init None = None" by (simp add: view_init_def)
  have r: "rejecting (nodes two_leaves)" by (simp add: two_leaves_def)
  have n: "length (filter testFn (nodes two_leaves)) = 2" by (simp add: two_leaves_def)
  from start_captures_failures [OF v, of 1 2 two_leaves False] r n v
  show ?thesis by auto
qed

text \<open>
  C10. Once \<open>start()\<close> on a new runner has completed, the runner is in \<open>pass\<close> or in
  \<open>fail\<close>, and a second \<open>start()\<close> rejects with the \<open>INVALID_MOVE\<close> error of
  \<open>setState('in-progress')\<close>, whose message names \<open>pending\<close> as the only legal source and
  the state the runner is in; the state stays, and no event is emitted.
\<close>

theorem second_start_fails:
  assumes "start now0 now1 (TestRunnerCore t v d) = (None, r1)"
  shows "(state r1 = Some ''pass'' \<or> state r1 = Some ''fail'')
       \<and> fst (start now2 now3 r1) =
           Some (Error ''INVALID_MOVE''
             (invalid_move_msg (Some ''in-progress'') [quoted (Some ''pending'')] (state r1)))
       \<and> state (snd (start now2 now3 r1)) = state r1
       \<and> emitted (snd (start now2 now3 r1)) = emitted r1"
proof -
  have vi: "view_init v = None"
  proof (cases "view_init v")
    case (Some e)
    then have "start now0 now1 (TestRunnerCore t v d) = (Some e, TestRunnerCore t v d)"
      by (simp add: start_def TestRunnerCore_fields)
    with assms show ?thesis by simp
  qed simp
  let ?r3 = "started now0 (TestRunnerCore t v d)"
  from start_fresh [OF vi, of now0 now1 t d] assms
  have r1: "r1 = finished now1 (traversed ?r3)" by simp
  from traversed_fresh [of t now0 v d]
  have run: "running (traversed ?r3)" and same: "same_setup ?r3 (traversed ?r3)"
    by (simp_all add: settled_def)
  have mv: "validMoves r1 = map normalise runner_moves"
    using run by (simp add: r1 finished_fields running_def)
  have vw: "view r1 = v"
    using same by (simp add: r1 finished_fields same_setup_def started_fields TestRunnerCore_fields)
  have st: "state r1 = Some ''pass'' \<or> state r1 = Some ''fail''"
    by (simp add: r1 finished_fields)
  let ?n = "length (filter testFn (nodes (tom r1)))"
  let ?r2 = "r1\<lparr> stats := (stats r1)\<lparr> start_time := Some now2, total := ?n \<rparr> \<rparr>"
  have "setState (Some ''in-progress'') [ANum ?n] ?r2 =
           (Some (Error ''INVALID_MOVE''
              (invalid_move_msg (Some ''in-progress'') [quoted (Some ''pending'')] (state ?r2))), ?r2)"
    using mv st by (intro setState_in_progress_again) simp_all
  then have "start now2 now3 r1 =
           (Some (Error ''INVALID_MOVE''
              (invalid_move_msg (Some ''in-progress'') [quoted (Some ''pending'')] (state r1))), ?r2)"
    by (simp add: start_def vw vi Let_def)
  with st show ?thesis by simp
qed

theorem second_start_fails_witness:
  "fst (start 1 2 (TestRunnerCore two_leaves None False)) = None
   \<and> state (snd (start 1 2 (TestRunnerCore two_leaves None False))) = Some ''fail''
   \<and> fst (start 3 4 (snd (start 1 2 (TestRunnerCore two_leaves None False)))) =
        Some (Error ''INVALID_MOVE''
          (''Can only move to '' @ [CHR 0x27] @ ''in-progress'' @ [CHR 0x27] @ '' from ''
             @ [CHR 0x27] @ ''pending'' @ [CHR 0x27] @ '' (not '' @ [CHR 0x27] @ ''fail'' @ [CHR 0x27] @ '')''))
   \<and> state (snd (start 3 4 (snd (start 1 2 (TestRunnerCore two_leaves None False))))) = Some ''fail''"
proof -
  have v: "view_init None = None" by (simp add: view_init_def)
  let ?r1 = "snd (start 1 2 (TestRunnerCore two_leaves None False))"
  have a0: "fst (start 1 2 (TestRunnerCore two_leaves None False)) = None"
    by (simp add: start_fresh [OF v])
  then have a: "start 1 2 (TestRunnerCore two_leaves None False) = (None, ?r1)"
    by (metis prod.collapse)
  have f: "state ?r1 = Some ''fail''"
    unfolding start_fresh [OF v] snd_conv
    by (simp add: finished_def started_def traversed_def Let_def
        TestRunnerCore_def StateMachine_from_def StateMachine_def two_leaves_def run_def tom_run_def process_def emit_sm_def transition_def
        catch_fail_def setState_def validTo_def runner_moves_eq)
  from second_start_fails [OF a, of 3 4] a0 f
  show ?thesis
    by (simp add: invalid_move_msg_def quoted_def template_def)
qed

text \<open>
  C9. For a tree that is a single node without work function and without children,
  whose own \<open>run()\<close> fulfils, \<open>start()\<close> moves the runner from \<open>pending\<close> to
  \<open>in-progress\<close> to \<open>pass\<close>: it emits the two events of the first move with the count
  0, the \<open>start\<close> event with the count 0, whatever the root's own \<open>run()\<close> signals, the
  two events of the move to \<open>pass\<close>, and last the \<open>end\<close> event with the statistics,
  whose total is 0.
\<close>

theorem empty_tree_passes:
  assumes "view_init v = None" "children t = []" "\<not> testFn t" "run_rejects t = None"
  shows "\<exists>r'. start now0 now1 (TestRunnerCore t v d) = (None, r')
           \<and> state r' = Some ''pass''
           \<and> total (stats r') = 0
           \<and> emitted r' =
               [(Some ''state'', [AState (Some ''in-progress''), AState (Some ''pending'')]),
                (Some ''in-progress'', [ANum 0]),
                (Some ''start'', [ANum 0])]
               @ map republished (run_signals t)
               @ [(Some ''state'', [AState (Some ''pass''), AState (Some ''in-progress'')]),
                  (Some ''pass'', []),
                  (Some ''end'', [AStats (stats r')])]"
proof -
  obtain n f mc sg rj cs where t: "t = Tom n f mc sg rj cs" by (cases t)
  with assms have [simp]: "cs = []" "\<not> f" "rj = None" by simp_all
  let ?r3 = "started now0 (TestRunnerCore t v d)"
  have tr: "traversed ?r3 = tom_run t ?r3"
    by (simp add: traversed_def started_fields TestRunnerCore_fields t run_def process_def)
  have n0: "length (filter testFn (nodes t)) = 0" by (simp add: t)
  show ?thesis
    by (simp add: start_fresh [OF assms(1)] tr finished_def Let_def emit_sm_def
        started_fields TestRunnerCore_fields n0)
qed

theorem empty_tree_passes_witness:
  "view_init None = None \<and> children empty_tree = [] \<and> \<not> testFn empty_tree \<and> run_rejects empty_tree = None
   \<and> fst (start 1 2 (TestRunnerCore empty_tree None False)) = None
   \<and> state (snd (start 1 2 (TestRunnerCore empty_tree None False))) = Some ''pass''
   \<and> emitted (snd (start 1 2 (TestRunnerCore empty_tree None False))) =
        [(Some ''state'', [AState (Some ''in-progress''), AState (Some ''pending'')]),
         (Some ''in-progress'', [ANum 0]),
         (Some ''start'', [ANum 0]),
         (Some ''test-ignore'', [ANode ''root'']),
         (Some ''state'', [AState (Some ''pass''), AState (Some ''in-progress'')]),
         (Some ''pass'', []),
         (Some ''end'', [AStats \<lparr> pass = 0, fail = 0, skip = 0, ignore = 1, total = 0,
                                  start_time = Some 1, end_time = Some 2 \<rparr>])]"
proof -
  have v: "view_init None = None" by (simp add: view_init_def)
  have e: "children empty_tree = []" "\<not> testFn empty_tree" "run_rejects empty_tree = None"
    by (simp_all add: empty_tree_def)
  have sg: "map republished (run_signals empty_tree) = [(Some ''test-ignore'', [ANode ''root''])]"
    by (simp add: empty_tree_def republished_def)
  have st: "stats (snd (start 1 2 (TestRunnerCore empty_tree None False)))
      = \<lparr> pass = 0, fail = 0, skip = 0, ignore = 1, total = 0, start_time = Some 1, end_time = Some 2 \<rparr>"
    unfolding start_fresh [OF v] snd_conv
    by (simp add: finished_def started_def traversed_def Let_def
        TestRunnerCore_def StateMachine_from_def StateMachine_def empty_tree_def run_def tom_run_def process_def emit_sm_def transition_def Stats_def)
  from empty_tree_passes [OF v e, of 1 2 False] sg st v e
  show ?thesis by auto
qed

lemma counters_started:
  "pass (stats (started now0 r)) = pass (stats r)"
  "fail (stats (started now0 r)) = fail (stats r)"
  "skip (stats (started now0 r)) = skip (stats r)"
  "ignore (stats (started now0 r)) = ignore (stats r)"
  by (simp_all add: started_def Let_def emit_sm_def transition_def)

lemma counters_finished:
  "pass (stats (finished now1 r)) = pass (stats r)"
  "fail (stats (finished now1 r)) = fail (stats r)"
  "skip (stats (finished now1 r)) = skip (stats r)"
  "ignore (stats (finished now1 r)) = ignore (stats r)"
  "end_time (stats (finished now1 r)) = Some now1"
  by (simp_all add: finished_def Let_def emit_sm_def transition_def)

lemma counters_TestRunnerCore:
  "pass (stats (TestRunnerCore t v d)) = 0"
  "fail (stats (TestRunnerCore t v d)) = 0"
  "skip (stats (TestRunnerCore t v d)) = 0"
  "ignore (stats (TestRunnerCore t v d)) = 0"
  by (simp_all add: TestRunnerCore_def Stats_def)

text \<open>
  The statistics of a run. When \<open>start()\<close> on a new runner has completed, each counter
  holds the number of times the nodes of the tree emitted its lifecycle event
  (\<open>pass\<close>, \<open>fail\<close>, \<open>skipped\<close>, \<open>ignored\<close>), the total is the number of nodes with a
  work function, and the end time is the second reading of the clock.
\<close>

theorem start_counts_signals:
  assumes "view_init v = None"
  shows "\<exists>r'. start now0 now1 (TestRunnerCore t v d) = (None, r')
           \<and> pass (stats r') = signalled Pass (nodes t)
           \<and> fail (stats r') = signalled Fail (nodes t)
           \<and> skip (stats r') = signalled Skipped (nodes t)
           \<and> ignore (stats r') = signalled Ignored (nodes t)
           \<and> total (stats r') = length (filter testFn (nodes t))
           \<and> end_time (stats r') = Some now1"
proof -
  let ?r3 = "started now0 (TestRunnerCore t v d)"
  from traversed_fresh [of t now0 v d]
  have c: "counted (nodes t) ?r3 (traversed ?r3)"
    and "total (stats (traversed ?r3)) = length (filter testFn (nodes t))"
    by (simp_all add: settled_def same_setup_def started_fields TestRunnerCore_fields)
  then show ?thesis
    by (simp add: start_fresh [OF assms] finished_fields counters_finished counted_def
        counters_started counters_TestRunnerCore)
qed

theorem start_counts_signals_witness:
  "view_init None = None
   \<and> fst (start 1 2 (TestRunnerCore two_leaves None False)) = None
   \<and> pass (stats (snd (start 1 2 (TestRunnerCore two_leaves None False)))) = 1
   \<and> fail (stats (snd (start 1 2 (TestRunnerCore two_leaves None False)))) = 1
   \<and> skip (stats (snd (start 1 2 (TestRunnerCore two_leaves None False)))) = 0
   \<and> total (stats (snd (start 1 2 (TestRunnerCore two_leaves None False)))) = 2"
proof -
  have v: "view_init None = None" by (simp add: view_init_def)
  have s: "signalled Pass (nodes two_leaves) = 1" "signalled Fail (nodes two_leaves) = 1"
    "signalled Skipped (nodes two_leaves) = 0" "length (filter testFn (nodes two_leaves)) = 2"
    by (simp_all add: two_leaves_def signalled_def)
  from start_counts_signals [OF v, of 1 2 two_leaves False] s v
  show ?thesis by auto
qed

section \<open>Test: properties\<close>






lemma timer_delay_positive: "0 < timer_delay ms"
  by (simp add: timer_delay_def)


lemma decimal_150: "decimal 150 = ''150''"
  by code_simp


lemma number_string_150: "number_string exponent 150 = ''150''"
  by (simp add: number_string_def decimal_150)





text \<open>
  C6, at the failing inputs. A unit whose work function returns a future that rejects
  (the unit "failing async test: rejected" of the suite), and a unit whose work
  resolves after 300 ms against a timeout of 150 ms: the future of \<open>run()\<close> rejects,
  and the unit's state is \<open>passed\<close>, since the state is set when the work function has
  returned, not when the future settles.
\<close>

theorem run_passed_though_rejected:
  "Test_run exponent first_wins rejected_test =
     (rejected_test\<lparr> test_state := ''passed'' \<rparr>, Settles Now (Rejected (Error ''Error'' ''failed'')))
   \<and> Test_run exponent first_wins (slow_test 150) =
     ((slow_test 150)\<lparr> test_state := ''passed'' \<rparr>,
      Settles (After 150) (Rejected (Error ''Error'' ''Timeout expired [150]'')))"
  by (simp add: Test_run_def rejected_test_def slow_test_def Test_def raceTimeout_def
        timer_delay_def TIMEOUT_MAX_def number_string_150)

text \<open>
  A work function that throws: \<open>run()\<close> marks the unit \<open>failed\<close>, and its future rejects
  with the error thrown in the turn of the call, whatever the timeout.
\<close>

theorem run_throws:
  assumes "test_testFn t = Throws err"
  shows "Test_run exponent first_wins t = (t\<lparr> test_state := ''failed'' \<rparr>, Settles Now (Rejected err))"
  using assms by (simp add: Test_run_def raceTimeout_def)

theorem run_throws_witness:
  "test_testFn throwing_test = Throws (Error ''Error'' ''failed'')
   \<and> Test_run no_exponent True throwing_test =
       (throwing_test\<lparr> test_state := ''failed'' \<rparr>, Settles Now (Rejected (Error ''Error'' ''failed'')))"
proof -
  have a: "test_testFn throwing_test = Throws (Error ''Error'' ''failed'')"
    by (simp add: throwing_test_def Test_def)
  from run_throws [OF a, of no_exponent True] a show ?thesis by simp
qed

text \<open>
  A work function that returns a thenable on which \<open>result.then(resolve).catch(reject)\<close>
  throws: \<open>run()\<close> leaves the unit \<open>failed\<close>, and its future settles in the turn of the
  call, rejected with the error thrown, or fulfilled when \<open>then\<close> had called \<open>resolve\<close>
  before the throw.
\<close>

theorem run_thenable_throws:
  "Test_run exponent first_wins (t\<lparr> test_testFn := Thenable_throws None err \<rparr>)
     = (t\<lparr> test_testFn := Thenable_throws None err, test_state := ''failed'' \<rparr>, Settles Now (Rejected err))
   \<and> Test_run exponent first_wins (t\<lparr> test_testFn := Thenable_throws (Some v) err \<rparr>)
     = (t\<lparr> test_testFn := Thenable_throws (Some v) err, test_state := ''failed'' \<rparr>, Settles Now (Fulfilled v))"
  by (simp add: Test_run_def raceTimeout_def)

section \<open>Emitter: properties\<close>

text \<open>
  C7, at the failing input. An emitter with one \<open>once\<close> listener for the event \<open>a\<close>.
  With \<open>emit\<close> of the bundle in part_001, emitting \<open>b\<close> removes the listener though
  it was not called, and a later \<open>a\<close> calls nothing. With \<open>emit\<close> of dist/tests.js
  (lines 39 to 65) on the same input, emitting \<open>b\<close> leaves the emitter as it is, and
  the later \<open>a\<close> calls the handler once and then removes the listener.
\<close>

theorem emit_bundle_drops_once_listener:
  "emit_bundle hs ''b'' [] (once_on ''a'' 1 Emitter) = \<lparr> listeners = [], next_lid = 1, calls = [] \<rparr>
   \<and> emit_bundle hs ''a'' [AStr ''x''] (emit_bundle hs ''b'' [] (once_on ''a'' 1 Emitter))
       = \<lparr> listeners = [], next_lid = 1, calls = [] \<rparr>
   \<and> emit quiet ''b'' [] (once_on ''a'' 1 Emitter) = once_on ''a'' 1 Emitter
   \<and> emit quiet ''a'' [AStr ''x''] (emit quiet ''b'' [] (once_on ''a'' 1 Emitter))
       = \<lparr> listeners = [], next_lid = 1, calls = [(1, [AStr ''x''])] \<rparr>"
  by (simp add: emit_bundle_def emit_def emit_loop_bundle.simps emit_loop.simps once_on_def on_def
      Emitter_def call_handler_def quiet_def splice_indexOf_def Let_def)

text \<open>
  C8, at the failing input. An emitter with two listeners for the event \<open>e\<close>, the first
  of which removes itself when called. \<open>emit\<close> of dist/tests.js walks the array the
  removal shifts: after the first handler the second listener stands at index 0, the
  loop goes on at index 1, and the second listener, registered before the emit, is not
  called. With handlers that leave the array alone, both are called.
\<close>

theorem emit_skips_after_removal:
  "emit self_removing ''e'' [] (on ''e'' 1 False (on ''e'' 0 False Emitter))
     = \<lparr> listeners = [\<lparr> lid = 1, eventName = ''e'', handler = 1, once = False \<rparr>],
         next_lid = 2, calls = [(0, [])] \<rparr>
   \<and> emit quiet ''e'' [] (on ''e'' 1 False (on ''e'' 0 False Emitter))
     = \<lparr> listeners = [\<lparr> lid = 0, eventName = ''e'', handler = 0, once = False \<rparr>,
                      \<lparr> lid = 1, eventName = ''e'', handler = 1, once = False \<rparr>],
         next_lid = 2, calls = [(0, []), (1, [])] \<rparr>"
  by (simp add: emit_def emit_loop.simps on_def Emitter_def call_handler_def quiet_def self_removing_def
      removeEventListener_def Let_def)

lemma call_handler_quiet:
  "hs (handler l) = [] \<Longrightarrow> call_handler hs l args em = em\<lparr> calls := calls em @ [(handler l, args)] \<rparr>"
  by (simp add: call_handler_def)

lemma emit_loop_untouched:
  assumes "\<And>h. hs h = []"
  shows "emit_loop hs ev args i toRemove em =
           (toRemove @ filter (\<lambda>l. matches ev l \<and> once l) (drop i (listeners em)),
            em\<lparr> calls := calls em @ map (handler_call ev args) (filter (matches ev) (drop i (listeners em))) \<rparr>)"
  using assms
proof (induction hs ev args i toRemove em rule: emit_loop.induct)
  case (1 hs ev args i toRemove em)
  show ?case
  proof (cases "i < length (listeners em)")
    case False
    then show ?thesis by (subst emit_loop.simps) simp
  next
    case True
    let ?l = "listeners em ! i"
    have d: "drop i (listeners em) = ?l # drop (Suc i) (listeners em)"
      using True by (simp add: Cons_nth_drop_Suc)
    show ?thesis
    proof (cases "matches ev ?l")
      case m: True
      have m': "eventName ?l = ''__ALL__'' \<or> eventName ?l = ev" using m by (simp add: matches_def)
      let ?args = "if eventName ?l = ''__ALL__'' then AStr ev # args else args"
      let ?em = "em\<lparr> calls := calls em @ [(handler ?l, ?args)] \<rparr>"
      have c: "call_handler hs ?l ?args em = ?em"
        using "1.prems" by (simp add: call_handler_quiet)
      have ih: "emit_loop hs ev args (i + 1) (if once ?l then toRemove @ [?l] else toRemove) ?em =
           ((if once ?l then toRemove @ [?l] else toRemove)
              @ filter (\<lambda>l. matches ev l \<and> once l) (drop (i + 1) (listeners ?em)),
            ?em\<lparr> calls := calls ?em @ map (handler_call ev args) (filter (matches ev) (drop (i + 1) (listeners ?em))) \<rparr>)"
        using "1.IH"(1) [OF True refl refl _ "1.prems"] m' c by simp
      have step: "emit_loop hs ev args i toRemove em =
          emit_loop hs ev args (i + 1) (if once ?l then toRemove @ [?l] else toRemove) ?em"
        by (subst emit_loop.simps) (simp only: True m' c Let_def if_True)
      show ?thesis
        unfolding step ih using m by (simp add: d handler_call_def)
    next
      case m: False
      have m': "\<not> (eventName ?l = ''__ALL__'' \<or> eventName ?l = ev)" using m by (simp add: matches_def)
      have ih: "emit_loop hs ev args (i + 1) toRemove em =
           (toRemove @ filter (\<lambda>l. matches ev l \<and> once l) (drop (i + 1) (listeners em)),
            em\<lparr> calls := calls em @ map (handler_call ev args) (filter (matches ev) (drop (i + 1) (listeners em))) \<rparr>)"
        using "1.IH"(2) [OF True refl refl _ "1.prems"] m' by simp
      have step: "emit_loop hs ev args i toRemove em = emit_loop hs ev args (i + 1) toRemove em"
        by (subst emit_loop.simps) (simp only: True m' Let_def if_True if_False)
      show ?thesis
        unfolding step ih using m by (simp add: d)
    qed
  qed
qed

lemma fold_splice_indexOf:
  assumes "distinct ls" "distinct rs" "set rs \<subseteq> set ls"
  shows "fold splice_indexOf rs ls = filter (\<lambda>x. x \<notin> set rs) ls"
  using assms
proof (induction rs arbitrary: ls)
  case Nil
  then show ?case by simp
next
  case (Cons r rs)
  have r: "r \<in> set ls" "r \<notin> set rs" using Cons.prems by auto
  have rm: "remove1 r ls = filter (\<lambda>x. x \<noteq> r) ls"
    using Cons.prems(1) by (simp add: distinct_remove1_removeAll removeAll_filter_not_eq) metis
  have sp: "splice_indexOf r ls = remove1 r ls"
    using r by (simp add: splice_indexOf_def)
  have ih: "fold splice_indexOf rs (remove1 r ls) = filter (\<lambda>x. x \<notin> set rs) (remove1 r ls)"
    using Cons.prems r by (intro Cons.IH) auto
  have "fold splice_indexOf (r # rs) ls = fold splice_indexOf rs (remove1 r ls)"
    by (simp add: sp)
  also have "\<dots> = filter (\<lambda>x. x \<notin> set rs) (filter (\<lambda>x. x \<noteq> r) ls)"
    using ih by (simp only: rm)
  also have "\<dots> = filter (\<lambda>x. x \<notin> set (r # rs)) ls"
    by (simp add: conj_commute)
  finally show ?case .
qed

text \<open>
  What holds of \<open>emit\<close> of dist/tests.js when no handler touches the list of
  listeners, each record having its own identity: every matching listener is called
  once, in the order of registration, with the arguments of the event (behind the
  event's name for a listener to every event), and after the calls exactly the
  matching \<open>once\<close> listeners are gone; a \<open>once\<close> listener for another event stays.
\<close>

theorem emit_untouched:
  assumes "\<And>h. hs h = []" "distinct (map lid (listeners em))"
  shows "emit hs ev args em =
           em\<lparr> listeners := filter (\<lambda>l. \<not> (matches ev l \<and> once l)) (listeners em),
               calls := calls em @ map (handler_call ev args) (filter (matches ev) (listeners em)) \<rparr>"
proof (cases "listeners em = []")
  case True
  then show ?thesis by (simp add: emit_def)
next
  case False
  have d: "distinct (listeners em)" using assms(2) by (simp add: distinct_map)
  have "fold splice_indexOf (filter (\<lambda>l. matches ev l \<and> once l) (listeners em)) (listeners em)
          = filter (\<lambda>x. x \<notin> set (filter (\<lambda>l. matches ev l \<and> once l) (listeners em))) (listeners em)"
    using d by (intro fold_splice_indexOf) auto
  also have "\<dots> = filter (\<lambda>l. \<not> (matches ev l \<and> once l)) (listeners em)"
    by (rule filter_cong) auto
  finally show ?thesis
    using False by (simp add: emit_def emit_loop_untouched [OF assms(1)])
qed

theorem emit_untouched_witness:
  "quiet 0 = [] \<and> quiet 1 = []
   \<and> distinct (map lid (listeners (once_on ''a'' 2 (once_on ''b'' 1 (on ''__ALL__'' 0 False Emitter)))))
   \<and> emit quiet ''a'' [AStr ''x''] (once_on ''a'' 2 (once_on ''b'' 1 (on ''__ALL__'' 0 False Emitter)))
       = \<lparr> listeners = [\<lparr> lid = 0, eventName = ''__ALL__'', handler = 0, once = False \<rparr>,
                        \<lparr> lid = 1, eventName = ''b'', handler = 1, once = True \<rparr>],
           next_lid = 3,
           calls = [(0, [AStr ''a'', AStr ''x'']), (2, [AStr ''x''])] \<rparr>"
proof -
  have q: "\<And>h. quiet h = []" by (simp add: quiet_def)
  have d: "distinct (map lid (listeners (once_on ''a'' 2 (once_on ''b'' 1 (on ''__ALL__'' 0 False Emitter)))))"
    by (simp add: once_on_def on_def Emitter_def)
  have e: "emit quiet ''a'' [AStr ''x''] (once_on ''a'' 2 (once_on ''b'' 1 (on ''__ALL__'' 0 False Emitter)))
       = \<lparr> listeners = [\<lparr> lid = 0, eventName = ''__ALL__'', handler = 0, once = False \<rparr>,
                        \<lparr> lid = 1, eventName = ''b'', handler = 1, once = True \<rparr>],
           next_lid = 3,
           calls = [(0, [AStr ''a'', AStr ''x'']), (2, [AStr ''x''])] \<rparr>"
    using emit_untouched [OF q d, where ev = "''a''" and args = "[AStr ''x'']"]
    by (simp add: once_on_def on_def Emitter_def matches_def handler_call_def)
  from q [of 0] q [of 1] d e show ?thesis by blast
qed

lemma emit_loop_bundle_untouched:
  assumes "\<And>h. hs h = []"
  shows "emit_loop_bundle hs ev args i toRemove em =
           (toRemove @ filter once (drop i (listeners em)),
            em\<lparr> calls := calls em @ map (bundle_call ev args) (filter (matches ev) (drop i (listeners em))) \<rparr>)"
  using assms
proof (induction hs ev args i toRemove em rule: emit_loop_bundle.induct)
  case (1 hs ev args i toRemove em)
  show ?case
  proof (cases "i < length (listeners em)")
    case False
    then show ?thesis by (subst emit_loop_bundle.simps) simp
  next
    case True
    let ?l = "listeners em ! i"
    let ?em = "if eventName ?l = ev then call_handler hs ?l args em
               else if eventName ?l = ''__ALL__'' then call_handler hs ?l (AStr ev # args) em
               else em"
    let ?tr = "if once ?l then toRemove @ [?l] else toRemove"
    have d: "drop i (listeners em) = ?l # drop (Suc i) (listeners em)"
      using True by (simp add: Cons_nth_drop_Suc)
    have step: "emit_loop_bundle hs ev args i toRemove em = emit_loop_bundle hs ev args (i + 1) ?tr ?em"
      by (subst emit_loop_bundle.simps) (simp only: True Let_def if_True)
    have ih: "emit_loop_bundle hs ev args (i + 1) ?tr ?em =
           (?tr @ filter once (drop (i + 1) (listeners ?em)),
            ?em\<lparr> calls := calls ?em @ map (bundle_call ev args) (filter (matches ev) (drop (i + 1) (listeners ?em))) \<rparr>)"
      using "1.IH" [OF True refl refl "1.prems"] .
    have em: "?em = (if matches ev ?l then em\<lparr> calls := calls em @ [bundle_call ev args ?l] \<rparr> else em)"
      using "1.prems" by (auto simp: call_handler_quiet matches_def bundle_call_def)
    show ?thesis
      unfolding step ih by (simp add: em d)
  qed
qed

text \<open>
  What the \<open>emit\<close> of the bundle in part_001 does when no handler touches the list of
  listeners: it calls the matching listeners, and it removes every \<open>once\<close> listener
  of the emitter, whatever event that listener is for.
\<close>

theorem emit_bundle_untouched:
  assumes "\<And>h. hs h = []" "distinct (map lid (listeners em))"
  shows "emit_bundle hs ev args em =
           em\<lparr> listeners := filter (\<lambda>l. \<not> once l) (listeners em),
               calls := calls em @ map (bundle_call ev args) (filter (matches ev) (listeners em)) \<rparr>"
proof (cases "listeners em = []")
  case True
  then show ?thesis by (simp add: emit_bundle_def)
next
  case False
  have d: "distinct (listeners em)" using assms(2) by (simp add: distinct_map)
  have "fold splice_indexOf (filter once (listeners em)) (listeners em)
          = filter (\<lambda>x. x \<notin> set (filter once (listeners em))) (listeners em)"
    using d by (intro fold_splice_indexOf) auto
  also have "\<dots> = filter (\<lambda>l. \<not> once l) (listeners em)"
    by (rule filter_cong) auto
  finally show ?thesis
    using False by (simp add: emit_bundle_def emit_loop_bundle_untouched [OF assms(1)])
qed

theorem emit_bundle_untouched_witness:
  "quiet 0 = [] \<and> quiet 1 = []
   \<and> distinct (map lid (listeners (once_on ''a'' 2 (once_on ''b'' 1 (on ''__ALL__'' 0 False Emitter)))))
   \<and> emit_bundle quiet ''a'' [AStr ''x''] (once_on ''a'' 2 (once_on ''b'' 1 (on ''__ALL__'' 0 False Emitter)))
       = \<lparr> listeners = [\<lparr> lid = 0, eventName = ''__ALL__'', handler = 0, once = False \<rparr>],
           next_lid = 3,
           calls = [(0, [AStr ''a'', AStr ''x'']), (2, [AStr ''x''])] \<rparr>"
proof -
  have q: "\<And>h. quiet h = []" by (simp add: quiet_def)
  have d: "distinct (map lid (listeners (once_on ''a'' 2 (once_on ''b'' 1 (on ''__ALL__'' 0 False Emitter)))))"
    by (simp add: once_on_def on_def Emitter_def)
  have e: "emit_bundle quiet ''a'' [AStr ''x''] (once_on ''a'' 2 (once_on ''b'' 1 (on ''__ALL__'' 0 False Emitter)))
       = \<lparr> listeners = [\<lparr> lid = 0, eventName = ''__ALL__'', handler = 0, once = False \<rparr>],
           next_lid = 3,
           calls = [(0, [AStr ''a'', AStr ''x'']), (2, [AStr ''x''])] \<rparr>"
    using emit_bundle_untouched [OF q d, where ev = "''a''" and args = "[AStr ''x'']"]
    by (simp add: once_on_def on_def Emitter_def matches_def bundle_call_def)
  from q [of 0] q [of 1] d e show ?thesis by blast
qed

section \<open>Queue: properties\<close>

lemma start_while_inv:
  assumes "queue_inv js n q" "pending q = ps" "distinct js"
  shows "list_all (queue_inv js n) (start_while ps q) \<and> queue_inv js n (last (q # start_while ps q))"
  using assms
proof (induction ps arbitrary: q)
  case Nil
  then show ?case by simp
next
  case (Cons j ps)
  show ?case
  proof (cases "length (inflight q) < ceiling_of q")
    case False
    with Cons.prems show ?thesis by simp
  next
    case True
    let ?q' = "q\<lparr> pending := ps, inflight := inflight q @ [j], invoked := invoked q @ [j] \<rparr>"
    from Cons.prems have js: "js = invoked q @ j # ps" by (simp add: queue_inv_def)
    with Cons.prems(3) have "j \<notin> set (invoked q)" by simp
    with Cons.prems True have inv': "queue_inv js n ?q'"
      by (auto simp: queue_inv_def)
    from Cons.IH [OF inv' _ Cons.prems(3)] True inv' show ?thesis
      by (simp add: Let_def)
  qed
qed

lemma start_more_inv:
  assumes "queue_inv js n q" "distinct js"
  shows "list_all (queue_inv js n) (start_more q)" "queue_inv js n (last (q # start_more q))"
  using start_while_inv [OF assms(1) refl assms(2)] by (simp_all add: start_more_def)

lemma settle_inv: "queue_inv js n q \<Longrightarrow> queue_inv js n (settle j q)"
proof -
  assume a: "queue_inv js n q"
  have "length (remove1 j (inflight q)) \<le> length (inflight q)" by (simp add: length_remove1)
  moreover have "set (remove1 j (inflight q)) \<subseteq> set (inflight q)" by (rule set_remove1_subset)
  ultimately show ?thesis using a by (auto simp: queue_inv_def settle_def)
qed

lemma after_settlements_inv:
  assumes "queue_inv js n q" "distinct js"
  shows "list_all (queue_inv js n) (after_settlements q ss)"
  using assms
proof (induction ss arbitrary: q)
  case Nil
  then show ?case by simp
next
  case (Cons j ss)
  show ?case
  proof (cases "j \<in> set (inflight q)")
    case False
    with Cons show ?thesis by simp
  next
    case True
    let ?q1 = "settle j q"
    have q1: "queue_inv js n ?q1" using Cons.prems(1) by (rule settle_inv)
    note sm = start_more_inv [OF q1 Cons.prems(2)]
    from Cons.IH [OF sm(2) Cons.prems(2)] sm(1) q1 True show ?thesis
      by (simp add: Let_def)
  qed
qed

lemma Queue_inv: "queue_inv js n (Queue js n)"
  by (simp add: queue_inv_def Queue_def)

lemma instants_inv:
  assumes "distinct js"
  shows "list_all (queue_inv js n) (instants js n ss)"
proof -
  note sm = start_more_inv [OF Queue_inv assms, of n]
  from after_settlements_inv [OF sm(2) assms, of ss] sm(1) Queue_inv [of js n]
  show ?thesis by (simp add: instants_def Let_def)
qed

lemma queue_inv_bound:
  assumes "queue_inv js n q"
  shows "length (inflight q) \<le> min n (length js)" "set (invoked q) \<subseteq> set js"
proof -
  from assms have d: "distinct (inflight q)" and s: "set (inflight q) \<subseteq> set (invoked q)"
    and n: "length (inflight q) \<le> n" and js: "invoked q @ pending q = js"
    by (simp_all add: queue_inv_def)
  have "length (inflight q) = card (set (inflight q))" using d by (simp add: distinct_card)
  also have "\<dots> \<le> card (set (invoked q))" using s by (simp add: card_mono)
  also have "\<dots> \<le> length (invoked q)" by (rule card_length)
  also have "\<dots> \<le> length js" using js by (metis le_add1 length_append)
  finally show "length (inflight q) \<le> min n (length js)" using n by simp
  show "set (invoked q) \<subseteq> set js" using js by auto
qed

text \<open>
  C2. For a queue of distinct job thunks \<open>js\<close> with the ceiling \<open>n\<close>, at every instant
  of \<open>process()\<close>, whatever the order in which the jobs settle, the number of jobs
  started and not yet settled is at most \<open>min n (length js)\<close>, and the thunks invoked
  so far are thunks of the queue, no one of them invoked twice.
\<close>

theorem queue_never_exceeds_ceiling:
  assumes "distinct js" "q \<in> set (instants js n settlements)"
  shows "length (inflight q) \<le> min n (length js) \<and> distinct (invoked q) \<and> set (invoked q) \<subseteq> set js"
proof -
  from instants_inv [OF assms(1), of n settlements] assms(2) have inv: "queue_inv js n q"
    by (simp add: list_all_iff)
  have "distinct (invoked q)" using inv assms(1) by (metis queue_inv_def distinct_append)
  with queue_inv_bound [OF inv] show ?thesis by simp
qed

theorem queue_never_exceeds_ceiling_witness:
  "distinct [0::nat, 1, 2]
   \<and> \<lparr> pending = [2], ceiling_of = 2, inflight = [0, 1], invoked = [0, 1::nat] \<rparr>
        \<in> set (instants [0, 1, 2] 2 [1, 0, 2])
   \<and> length (inflight \<lparr> pending = [2], ceiling_of = 2, inflight = [0, 1], invoked = [0, 1::nat] \<rparr>)
        \<le> min 2 (length [0::nat, 1, 2])
   \<and> distinct (invoked \<lparr> pending = [2], ceiling_of = 2, inflight = [0, 1], invoked = [0, 1::nat] \<rparr>)"
proof -
  have d: "distinct [0::nat, 1, 2]" by simp
  have m: "\<lparr> pending = [2], ceiling_of = 2, inflight = [0, 1], invoked = [0, 1::nat] \<rparr>
        \<in> set (instants [0, 1, 2] 2 [1, 0, 2])"
    by (simp add: instants_def Queue_def start_more_def settle_def Let_def)
  from queue_never_exceeds_ceiling [OF d m] d m show ?thesis by simp
qed

lemma start_while_last:
  assumes "pending q = ps"
  shows "pending (last (q # start_while ps q)) = []
       \<or> \<not> length (inflight (last (q # start_while ps q))) < ceiling_of (last (q # start_while ps q))"
  using assms
proof (induction ps arbitrary: q)
  case Nil
  then show ?case by simp
next
  case (Cons j ps)
  show ?case
  proof (cases "length (inflight q) < ceiling_of q")
    case False
    then show ?thesis by simp
  next
    case True
    let ?q' = "q\<lparr> pending := ps, inflight := inflight q @ [j], invoked := invoked q @ [j] \<rparr>"
    from Cons.IH [of ?q'] True show ?thesis by (simp add: Let_def)
  qed
qed

lemma last_Cons_append: "last (a # b # xs @ ys) = last (last (b # xs) # ys)"
  by (cases ys) (simp_all add: last_append)

lemma after_settlements_last:
  assumes "pending q = [] \<or> \<not> length (inflight q) < ceiling_of q"
  shows "pending (last (q # after_settlements q ss)) = []
       \<or> \<not> length (inflight (last (q # after_settlements q ss))) < ceiling_of (last (q # after_settlements q ss))"
  using assms
proof (induction ss arbitrary: q)
  case Nil
  then show ?case by simp
next
  case (Cons j ss)
  show ?case
  proof (cases "j \<in> set (inflight q)")
    case False
    then have "after_settlements q (j # ss) = after_settlements q ss" by simp
    with Cons show ?thesis by (simp only:)
  next
    case True
    let ?q1 = "settle j q"
    let ?q2 = "last (?q1 # start_more ?q1)"
    have st: "pending ?q2 = [] \<or> \<not> length (inflight ?q2) < ceiling_of ?q2"
      using start_while_last [OF refl, of ?q1] by (simp only: start_more_def)
    have e: "last (q # after_settlements q (j # ss)) = last (?q2 # after_settlements ?q2 ss)"
      by (simp only: after_settlements.simps True if_True Let_def last_Cons_append)
    show ?thesis unfolding e by (rule Cons.IH [OF st])
  qed
qed

lemma last_append_Cons: "last (a # xs @ ys) = last (last (a # xs) # ys)"
  by (cases ys) (simp_all add: last_append)

text \<open>
  The queue does not idle. With a ceiling of at least 1, when no job is in flight at
  the last instant of a run, no job is pending either: every job of the queue has been
  invoked, in the order of the queue.
\<close>

theorem queue_starts_every_job:
  assumes "distinct js" "1 \<le> n" "inflight (last (instants js n settlements)) = []"
  shows "invoked (last (instants js n settlements)) = js \<and> pending (last (instants js n settlements)) = []"
proof -
  let ?init = "Queue js n"
  let ?filled = "last (?init # start_more ?init)"
  let ?fin = "last (instants js n settlements)"
  have q: "?fin = last (?filled # after_settlements ?filled settlements)"
    by (simp only: instants_def Let_def last_append_Cons)
  have "pending ?filled = [] \<or> \<not> length (inflight ?filled) < ceiling_of ?filled"
    using start_while_last [OF refl, of ?init] by (simp only: start_more_def)
  from after_settlements_last [OF this, of settlements]
  have st: "pending ?fin = [] \<or> \<not> length (inflight ?fin) < ceiling_of ?fin" by (simp only: q)
  have "?fin \<in> set (instants js n settlements)"
    by (rule last_in_set) (simp add: instants_def Let_def)
  with instants_inv [OF assms(1), of n settlements] have inv: "queue_inv js n ?fin"
    by (simp add: list_all_iff)
  then have "ceiling_of ?fin = n" and js: "invoked ?fin @ pending ?fin = js" by (simp_all add: queue_inv_def)
  with st assms(2,3) have "pending ?fin = []" by auto
  with js show ?thesis by simp
qed

theorem queue_starts_every_job_witness:
  "distinct [0::nat, 1, 2] \<and> (1::nat) \<le> 2
   \<and> inflight (last (instants [0::nat, 1, 2] 2 [1, 0, 2])) = []
   \<and> invoked (last (instants [0::nat, 1, 2] 2 [1, 0, 2])) = [0, 1, 2]
   \<and> pending (last (instants [0::nat, 1, 2] 2 [1, 0, 2])) = []"
proof -
  have d: "distinct [0::nat, 1, 2]" by simp
  have n: "(1::nat) \<le> 2" by simp
  have i: "inflight (last (instants [0::nat, 1, 2] 2 [1, 0, 2])) = []"
    by (simp add: instants_def Queue_def start_more_def settle_def Let_def)
  from queue_starts_every_job [OF d n i] d n i show ?thesis by simp
qed

end
